theory Spec2Isabelle
  imports Main "HOL-Library.Word" "HOL-Library.Signed_Division"
begin

unbundle bit_operations_syntax

section \<open>TripleBuffer (TripleBuffer.h)\<close>

text \<open>
  The class holds three buffer pointers and the flag \<open>m_updateFrontBuffer\<close>. A pointer
  is a value of the type variable \<open>'b\<close> (the address of a buffer); what a buffer holds
  lives in a separate store, because the swaps exchange pointers and never copy contents.
  \<open>TSTripleBuffer\<close> runs the same bodies under a mutex, so both flavours share this
  model.
\<close>

record 'b TripleBuffer =
  m_frontBuffer :: 'b
  m_backBuffer :: 'b
  m_spareBuffer :: 'b
  m_updateFrontBuffer :: bool

definition TripleBuffer_new :: "'b \<Rightarrow> 'b \<Rightarrow> 'b \<Rightarrow> 'b TripleBuffer" where
  \<comment> \<open>constructor: buffers[0], buffers[1], buffers[2]\<close>
  "TripleBuffer_new b0 b1 b2 =
     \<lparr>m_frontBuffer = b0, m_backBuffer = b1, m_spareBuffer = b2,
      m_updateFrontBuffer = False\<rparr>"

definition getFrontBuffer :: "'b TripleBuffer \<Rightarrow> 'b" where
  "getFrontBuffer t = m_frontBuffer t"


definition swapFrontBuffer :: "'b TripleBuffer \<Rightarrow> 'b \<times> 'b TripleBuffer" where
  \<comment> \<open>returns rval and the object after the call\<close>
  "swapFrontBuffer t =
     (if m_updateFrontBuffer t
      then (let rval = m_spareBuffer t
            in (rval, t\<lparr>m_spareBuffer := m_frontBuffer t, m_frontBuffer := rval,
                        m_updateFrontBuffer := False\<rparr>))
      else (m_frontBuffer t, t))"

definition swapBackBuffer :: "'b TripleBuffer \<Rightarrow> 'b \<times> 'b TripleBuffer" where
  "swapBackBuffer t =
     (let rval = m_spareBuffer t
      in (rval, t\<lparr>m_spareBuffer := m_backBuffer t, m_backBuffer := rval,
                  m_updateFrontBuffer := True\<rparr>))"

text \<open>\<open>n\<close> consecutive calls of \<open>swapBackBuffer\<close>, keeping only the object.\<close>

fun swapBackBuffer_times :: "nat \<Rightarrow> 'b TripleBuffer \<Rightarrow> 'b TripleBuffer" where
  "swapBackBuffer_times 0 t = t"
| "swapBackBuffer_times (Suc n) t = swapBackBuffer_times n (snd (swapBackBuffer t))"










section \<open>WorkQueue (WorkQueue.h)\<close>

text \<open>
  \<open>m_queue\<close> is the std::queue, head first; \<open>m_counterSem\<close> is the value of the
  counting semaphore. Each operation is one atomic step of the model (the source runs the
  queue accesses under \<open>m_lock\<close>). The semaphore is taken to be unbounded.
\<close>

record 'a WorkQueue =
  m_queue :: "'a list"
  m_counterSem :: nat

definition WorkQueue_new :: "'a WorkQueue" where
  "WorkQueue_new = \<lparr>m_queue = [], m_counterSem = 0\<rparr>"

definition produce :: "'a \<Rightarrow> 'a WorkQueue \<Rightarrow> 'a WorkQueue" where
  "produce elem q =
     q\<lparr>m_queue := m_queue q @ [elem], m_counterSem := Suc (m_counterSem q)\<rparr>"

text \<open>
  What a call of \<open>consume\<close> does: it returns true with the element copied out, it
  returns false and leaves the out-parameter alone, it stays suspended in \<open>sem_wait\<close>,
  or (semaphore positive on an empty queue) it calls \<open>front()\<close> on an empty std::queue,
  which is undefined.
\<close>

datatype 'a consumed = ReturnsTrue 'a | ReturnsFalse | Suspended | UndefinedFront

definition consume :: "bool \<Rightarrow> 'a WorkQueue \<Rightarrow> 'a consumed \<times> 'a WorkQueue" where
  "consume blocking q =
     (if m_counterSem q = 0
      then (if blocking then (Suspended, q) else (ReturnsFalse, q))
      else (case m_queue q of
              [] \<Rightarrow> (UndefinedFront, q\<lparr>m_counterSem := m_counterSem q - 1\<rparr>)
            | elem # rest \<Rightarrow>
                (ReturnsTrue elem, q\<lparr>m_queue := rest, m_counterSem := m_counterSem q - 1\<rparr>)))"

definition consumeAll :: "'a list \<Rightarrow> 'a WorkQueue \<Rightarrow> 'a list \<times> 'a WorkQueue" where
  \<comment> \<open>first argument: the caller's queue before the call; first result: after it\<close>
  "consumeAll queue q =
     (m_queue q,
      if m_queue q \<noteq> [] then q\<lparr>m_queue := [], m_counterSem := 0\<rparr> else q)"

definition size_wq :: "'a WorkQueue \<Rightarrow> int" where
  "size_wq q = int (length (m_queue q))"

text \<open>Successive calls of \<open>consume\<close> by one consumer, their results in call order.\<close>

fun consume_times :: "nat \<Rightarrow> bool \<Rightarrow> 'a WorkQueue \<Rightarrow> 'a consumed list \<times> 'a WorkQueue" where
  "consume_times 0 blocking q = ([], q)"
| "consume_times (Suc n) blocking q =
     (let (r, q') = consume blocking q;
          (rs, q'') = consume_times n blocking q'
      in (r # rs, q''))"

fun produce_all :: "'a list \<Rightarrow> 'a WorkQueue \<Rightarrow> 'a WorkQueue" where
  "produce_all [] q = q"
| "produce_all (x # xs) q = produce_all xs (produce x q)"

text \<open>
  The states a queue can be in: those reached from the constructor by any sequence of
  calls.
\<close>

datatype 'a wq_call = Produce 'a | Consume bool | ConsumeAll

fun apply_call :: "'a wq_call \<Rightarrow> 'a WorkQueue \<Rightarrow> 'a WorkQueue" where
  "apply_call (Produce x) q = produce x q"
| "apply_call (Consume blocking) q = snd (consume blocking q)"
| "apply_call ConsumeAll q = snd (consumeAll [] q)"

fun wq_run :: "'a wq_call list \<Rightarrow> 'a WorkQueue \<Rightarrow> 'a WorkQueue" where
  "wq_run [] q = q"
| "wq_run (c # cs) q = wq_run cs (apply_call c q)"

text \<open>
  What a sequence of calls hands to the consuming side, in order (the elements copied out
  by \<open>consume\<close> and the contents \<open>consumeAll\<close> copies into the caller's queue), and what
  it put in.
\<close>

fun delivered :: "'a wq_call list \<Rightarrow> 'a WorkQueue \<Rightarrow> 'a list" where
  "delivered [] q = []"
| "delivered (Produce x # cs) q = delivered cs (produce x q)"
| "delivered (Consume blocking # cs) q =
     (case fst (consume blocking q) of
        ReturnsTrue elem \<Rightarrow> elem # delivered cs (snd (consume blocking q))
      | _ \<Rightarrow> delivered cs (snd (consume blocking q)))"
| "delivered (ConsumeAll # cs) q =
     fst (consumeAll [] q) @ delivered cs (snd (consumeAll [] q))"

fun produced :: "'a wq_call list \<Rightarrow> 'a list" where
  "produced [] = []"
| "produced (Produce x # cs) = x # produced cs"
| "produced (c # cs) = produced cs"

definition wq_inv :: "'a WorkQueue \<Rightarrow> bool" where
  "wq_inv q = (m_counterSem q = length (m_queue q))"

section \<open>Parameter set requests (ParamSetRequest.h)\<close>

text \<open>
  A request carries an id and a copy of \<open>m_dataSize\<close> raw bytes. The worker thread reads
  the bytes through \<open>int *\<close> and \<open>float *\<close> casts; the target is little-endian. A
  \<open>float\<close> is kept as its IEEE-754 single precision bit pattern: the code copies and
  compares floats, and where it does arithmetic on them the operation is a parameter of
  the model. A read past the end of the data is undefined in the source and an error
  here.
\<close>

type_synonym uchar = "8 word"
type_synonym float = "32 word"

datatype error = OutOfBounds | DivisionByZero

definition bindE :: "error + 'a \<Rightarrow> ('a \<Rightarrow> error + 'b) \<Rightarrow> error + 'b" where
  "bindE r f = (case r of Inl e \<Rightarrow> Inl e | Inr v \<Rightarrow> f v)"

definition HISTOGRAM_SIZE :: nat where "HISTOGRAM_SIZE = 256"

definition PARAM_SHOT :: int where "PARAM_SHOT = 0"
definition PARAM_RESOLUTION :: int where "PARAM_RESOLUTION = 1"
definition PARAM_BURST_SIZE :: int where "PARAM_BURST_SIZE = 2"
definition PARAM_OUTPUT_FORMAT :: int where "PARAM_OUTPUT_FORMAT = 3"
definition PARAM_VIEWER_ACTIVE :: int where "PARAM_VIEWER_ACTIVE = 4"
definition PARAM_OUTPUT_DIRECTORY :: int where "PARAM_OUTPUT_DIRECTORY = 5"
definition PARAM_OUTPUT_FILE_ID :: int where "PARAM_OUTPUT_FILE_ID = 6"
definition PARAM_LUMINANCE_HISTOGRAM :: int where "PARAM_LUMINANCE_HISTOGRAM = 7"
definition PARAM_PREVIEW_EXPOSURE :: int where "PARAM_PREVIEW_EXPOSURE = 8"
definition PARAM_PREVIEW_FOCUS :: int where "PARAM_PREVIEW_FOCUS = 9"
definition PARAM_PREVIEW_GAIN :: int where "PARAM_PREVIEW_GAIN = 10"
definition PARAM_PREVIEW_WB :: int where "PARAM_PREVIEW_WB = 11"
definition PARAM_PREVIEW_AUTO_EXPOSURE_ON :: int where "PARAM_PREVIEW_AUTO_EXPOSURE_ON = 12"
definition PARAM_PREVIEW_AUTO_FOCUS_ON :: int where "PARAM_PREVIEW_AUTO_FOCUS_ON = 13"
definition PARAM_PREVIEW_AUTO_GAIN_ON :: int where "PARAM_PREVIEW_AUTO_GAIN_ON = 14"
definition PARAM_PREVIEW_AUTO_WB_ON :: int where "PARAM_PREVIEW_AUTO_WB_ON = 15"
definition PARAM_CAPTURE_FPS :: int where "PARAM_CAPTURE_FPS = 16"
definition PARAM_TAKE_PICTURE :: int where "PARAM_TAKE_PICTURE = 17"
definition PARAM_FOCUS_ON_TOUCH :: int where "PARAM_FOCUS_ON_TOUCH = 18"
definition PARAM_WB_ON_TOUCH :: int where "PARAM_WB_ON_TOUCH = 19"
definition PARAM_SELECT_CAMERA :: int where "PARAM_SELECT_CAMERA = 20"
definition PARAM_PRIV_FS_CHANGED :: int where "PARAM_PRIV_FS_CHANGED = 100"

definition SHOT_PARAM_EXPOSURE :: nat where "SHOT_PARAM_EXPOSURE = 0"
definition SHOT_PARAM_FOCUS :: nat where "SHOT_PARAM_FOCUS = 1"
definition SHOT_PARAM_GAIN :: nat where "SHOT_PARAM_GAIN = 2"
definition SHOT_PARAM_WB :: nat where "SHOT_PARAM_WB = 3"
definition SHOT_PARAM_FLASH :: nat where "SHOT_PARAM_FLASH = 4"

definition SELECT_FRONT_CAMERA :: int where "SELECT_FRONT_CAMERA = 0"
definition SELECT_BACK_CAMERA :: int where "SELECT_BACK_CAMERA = 1"
definition SELECT_STEREO_CAMERA :: int where "SELECT_STEREO_CAMERA = 2"

lemmas param_ids =
  PARAM_SHOT_def PARAM_RESOLUTION_def PARAM_BURST_SIZE_def PARAM_OUTPUT_FORMAT_def
  PARAM_VIEWER_ACTIVE_def PARAM_OUTPUT_DIRECTORY_def PARAM_OUTPUT_FILE_ID_def
  PARAM_LUMINANCE_HISTOGRAM_def PARAM_PREVIEW_EXPOSURE_def PARAM_PREVIEW_FOCUS_def
  PARAM_PREVIEW_GAIN_def PARAM_PREVIEW_WB_def PARAM_PREVIEW_AUTO_EXPOSURE_ON_def
  PARAM_PREVIEW_AUTO_FOCUS_ON_def PARAM_PREVIEW_AUTO_GAIN_ON_def
  PARAM_PREVIEW_AUTO_WB_ON_def PARAM_CAPTURE_FPS_def PARAM_TAKE_PICTURE_def
  PARAM_FOCUS_ON_TOUCH_def PARAM_WB_ON_TOUCH_def PARAM_SELECT_CAMERA_def
  PARAM_PRIV_FS_CHANGED_def

record ParamSetRequest =
  m_id :: int
  m_data :: "uchar list"
  m_dataSize :: int

definition ParamSetRequest_default :: ParamSetRequest where
  "ParamSetRequest_default = \<lparr>m_id = - 1, m_data = [], m_dataSize = 0\<rparr>"

definition ParamSetRequest_new :: "int \<Rightarrow> uchar list \<Rightarrow> int \<Rightarrow> ParamSetRequest" where
  \<comment> \<open>ParamSetRequest( param, data, dataSize ): memcpy of dataSize bytes\<close>
  "ParamSetRequest_new param bytes dataSize =
     \<lparr>m_id = param, m_data = take (nat dataSize) bytes, m_dataSize = dataSize\<rparr>"

definition store32 :: "32 word \<Rightarrow> uchar list" where
  \<comment> \<open>the four bytes of an int or float in memory, lowest first\<close>
  "store32 w = [ucast w, ucast (drop_bit 8 w), ucast (drop_bit 16 w), ucast (drop_bit 24 w)]"

definition load32 :: "uchar list \<Rightarrow> nat \<Rightarrow> error + 32 word" where
  \<comment> \<open>((int *) data)[k], or ((float *) data)[k] as a bit pattern\<close>
  "load32 d k =
     (case take 4 (drop (4 * k) d) of
        [b0, b1, b2, b3] \<Rightarrow>
          Inr (ucast b0 OR push_bit 8 (ucast b1) OR push_bit 16 (ucast b2)
               OR push_bit 24 (ucast b3))
      | _ \<Rightarrow> Inl OutOfBounds)"

definition getId :: "ParamSetRequest \<Rightarrow> int" where
  "getId task = m_id task"

definition getData :: "ParamSetRequest \<Rightarrow> uchar list" where
  "getData task = m_data task"

definition getDataAsInt :: "ParamSetRequest \<Rightarrow> error + int" where
  "getDataAsInt task = bindE (load32 (m_data task) 0) (\<lambda>w. Inr (sint w))"

definition taskDataInt :: "ParamSetRequest \<Rightarrow> nat \<Rightarrow> error + int" where
  "taskDataInt task k = bindE (load32 (getData task) k) (\<lambda>w. Inr (sint w))"

definition taskDataFloat :: "ParamSetRequest \<Rightarrow> nat \<Rightarrow> error + float" where
  "taskDataFloat task k = load32 (getData task) k"

definition float_gt_zero :: "float \<Rightarrow> bool" where
  \<comment> \<open>f > 0.0f: sign clear, not zero, not a NaN\<close>
  "float_gt_zero f = (0 < f \<and> f \<le> 0x7F800000)"

definition c_string :: "uchar list \<Rightarrow> error + string" where
  \<comment> \<open>(char *) data read up to the terminating NUL\<close>
  "c_string d =
     (if 0 \<in> set d then Inr (map (\<lambda>b. char_of (unat b)) (takeWhile (\<lambda>b. b \<noteq> 0) d))
      else Inl OutOfBounds)"

section \<open>Formatted output (printf, __android_log_print)\<close>

text \<open>
  printf conversions of an int: \<open>%i\<close> and \<open>%0wi\<close> (zero padding to width \<open>w\<close>, sign
  included). They format the ids of the error log lines and the names and attributes the
  image writer prints.
\<close>

function digits :: "nat \<Rightarrow> string" where
  "digits n =
     (if n < 10 then [char_of (48 + n)]
      else digits (n div 10) @ [char_of (48 + n mod 10)])"
  by pat_completeness auto
termination
  by (relation "measure id") auto

definition fmt_i :: "int \<Rightarrow> string" where
  "fmt_i k = (if k < 0 then [CHR 0x2D] @ digits (nat (- k)) else digits (nat k))"

definition fmt_0i :: "nat \<Rightarrow> int \<Rightarrow> string" where
  "fmt_0i w k =
     (let sign = (if k < 0 then [CHR 0x2D] else []); ds = digits (nat \<bar>k\<bar>)
      in sign @ replicate (w - length sign - length ds) (CHR 0x30) @ ds)"

section \<open>Capture state (Camera.h, Camera.cpp)\<close>

definition FCAM_MAX_PICTURES_PER_SHOT :: nat where "FCAM_MAX_PICTURES_PER_SHOT = 16"

record ShotParams =
  exposure :: float
  focus :: float
  gain :: float
  wb :: float
  flashOn :: int

record Preview =
  evaluated :: ShotParams
  user :: ShotParams
  autoExposure :: bool
  autoFocus :: bool
  autoGain :: bool
  autoWB :: bool
  histogramData :: "float list"

record CaptureState =
  preview :: Preview
  pendingImages :: "ShotParams list"
  pendingImagesCount :: int

datatype Mode = Front | Back | Stereo

record Camera =
  m_currentState :: CaptureState
  m_currentMode :: Mode
  m_imageWidth :: int
  m_imageHeight :: int

definition zero_ShotParams :: ShotParams where
  "zero_ShotParams = \<lparr>exposure = 0, focus = 0, gain = 0, wb = 0, flashOn = 0\<rparr>"

definition zero_CaptureState :: CaptureState where
  "zero_CaptureState =
     \<lparr>preview = \<lparr>evaluated = zero_ShotParams, user = zero_ShotParams,
                  autoExposure = False, autoFocus = False, autoGain = False, autoWB = False,
                  histogramData = replicate HISTOGRAM_SIZE 0\<rparr>,
      pendingImages = replicate FCAM_MAX_PICTURES_PER_SHOT zero_ShotParams,
      pendingImagesCount = 0\<rparr>"

definition Camera_new :: "int \<Rightarrow> int \<Rightarrow> Mode \<Rightarrow> Camera" where
  \<comment> \<open>the constructor body ends with memset( &m_currentState, 0, ... )\<close>
  "Camera_new width height mode =
     \<lparr>m_currentState = zero_CaptureState, m_currentMode = mode,
      m_imageWidth = width, m_imageHeight = height\<rparr>"

text \<open>
  Calls that leave the worker thread (JNI notifications, the sensor, the image writer,
  the log) are recorded as events, in call order. The frames the sensor returns are the
  collaborator's; \<open>SensorCapture i flash\<close> is \<open>m_sensor->capture( shot )\<close> for burst slot
  \<open>i\<close>, with the flash action attached when \<open>flash\<close> holds.
\<close>

datatype event =
    NotifyCaptureStart
  | NotifyCaptureComplete
  | NotifyFileSystemChange
  | SensorStopStreaming
  | SensorDrainPending
  | SensorCapture nat bool
  | SensorCollectFrames
  | WriterNewImageSet
  | WriterPush
  | WriterSetFreeFileId int
  | CameraReplaced Mode
  | LogError string

definition Camera_capture :: "Camera \<Rightarrow> error + event list" where
  "Camera_capture cam =
     (let st = m_currentState cam; n = pendingImagesCount st
      in if n \<le> int (length (pendingImages st))
         then Inr ([SensorStopStreaming, SensorDrainPending, WriterNewImageSet]
                   @ map (\<lambda>i. SensorCapture i (flashOn (pendingImages st ! i) \<noteq> 0))
                         [0 ..< nat n]
                   @ [SensorCollectFrames, WriterPush])
         else Inl OutOfBounds)"

section \<open>The worker thread's task dispatch (FCamInterface.cpp)\<close>

datatype callback = OnFileSystemChanged

record AsyncImageWriter =
  m_outputDirPrefix :: string
  m_onChangedCallback :: "callback option"

definition AsyncImageWriter_new :: "string \<Rightarrow> error + AsyncImageWriter" where
  \<comment> \<open>appends '/' unless the prefix ends with one; reads outputDirPrefix[slen - 1]\<close>
  "AsyncImageWriter_new outputDirPrefix =
     (if outputDirPrefix = [] then Inl OutOfBounds
      else Inr \<lparr>m_outputDirPrefix =
                  (if last outputDirPrefix \<noteq> CHR ''/'' then outputDirPrefix @ ''/''
                   else outputDirPrefix),
                m_onChangedCallback = None\<rparr>)"

definition setOnFileSystemChangedCallback ::
    "callback option \<Rightarrow> AsyncImageWriter \<Rightarrow> AsyncImageWriter" where
  "setOnFileSystemChangedCallback cb w = w\<lparr>m_onChangedCallback := cb\<rparr>"

datatype TouchAction = TOUCH_ACTION_NONE | TOUCH_ACTION_WHITE_BALANCE | TOUCH_ACTION_FOCUS

record AppThread =
  camera :: Camera
  writer :: "AsyncImageWriter option"
  requestQueue :: "ParamSetRequest WorkQueue"
  previousState :: CaptureState
  isCapturing :: bool
  isViewerActive :: bool
  touchX :: int
  touchY :: int
  touchAction :: TouchAction

text \<open>Writes to nested fields of \<open>camera->m_currentState\<close> and \<open>tdata->previousState\<close>.\<close>

definition cur_preview_update :: "(Preview \<Rightarrow> Preview) \<Rightarrow> AppThread \<Rightarrow> AppThread" where
  "cur_preview_update f = camera_update (m_currentState_update (preview_update f))"

definition prev_preview_update :: "(Preview \<Rightarrow> Preview) \<Rightarrow> AppThread \<Rightarrow> AppThread" where
  "prev_preview_update f = previousState_update (preview_update f)"

definition cur_preview :: "AppThread \<Rightarrow> Preview" where
  "cur_preview a = preview (m_currentState (camera a))"

definition prev_preview :: "AppThread \<Rightarrow> Preview" where
  "prev_preview a = preview (previousState a)"

definition bool_int :: "bool \<Rightarrow> int" where
  \<comment> \<open>integral promotion of a bool\<close>
  "bool_int b = (if b then 1 else 0)"

definition toggle_restores :: "bool \<Rightarrow> bool \<Rightarrow> bool" where
  \<comment> \<open>!prevValue && prevValue ^ current != 0, parsed as
      (!prevValue) && ((prevValue ^ (current != 0)) != 0 as a condition)\<close>
  "toggle_restores prevValue current =
     (\<not> prevValue \<and> (bool_int prevValue XOR bool_int (bool_int current \<noteq> 0)) \<noteq> 0)"

definition case_PARAM_SHOT :: "int \<Rightarrow> ParamSetRequest \<Rightarrow> AppThread \<Rightarrow> error + AppThread" where
  "case_PARAM_SHOT pictureId task a =
     (if 0 \<le> pictureId \<and> nat pictureId < length (pendingImages (m_currentState (camera a)))
      then
        bindE (taskDataFloat task SHOT_PARAM_EXPOSURE) (\<lambda>e.
        bindE (taskDataFloat task SHOT_PARAM_FOCUS) (\<lambda>f.
        bindE (taskDataFloat task SHOT_PARAM_GAIN) (\<lambda>g.
        bindE (taskDataFloat task SHOT_PARAM_WB) (\<lambda>w.
        bindE (taskDataFloat task SHOT_PARAM_FLASH) (\<lambda>fl.
          Inr (camera_update (m_currentState_update (pendingImages_update (\<lambda>ps.
                 ps[nat pictureId :=
                      \<lparr>exposure = e, focus = f, gain = g, wb = w,
                       flashOn = bool_int (float_gt_zero fl)\<rparr>]))) a))))))
      else Inl OutOfBounds)"

definition case_PARAM_PREVIEW_AUTO_EXPOSURE_ON ::
    "ParamSetRequest \<Rightarrow> AppThread \<Rightarrow> error + AppThread" where
  "case_PARAM_PREVIEW_AUTO_EXPOSURE_ON task a =
     bindE (taskDataInt task 0) (\<lambda>v.
       let prevValue = autoExposure (cur_preview a);
           a1 = cur_preview_update (autoExposure_update (\<lambda>_. v \<noteq> 0)) a
       in if toggle_restores prevValue (autoExposure (cur_preview a1))
          then Inr (prev_preview_update
                      (evaluated_update (exposure_update (\<lambda>_. exposure (user (cur_preview a1)))))
                      a1)
          else Inr (cur_preview_update
                      (user_update (exposure_update (\<lambda>_. exposure (evaluated (prev_preview a1)))))
                      a1))"

definition case_PARAM_PREVIEW_AUTO_FOCUS_ON ::
    "ParamSetRequest \<Rightarrow> AppThread \<Rightarrow> error + AppThread" where
  "case_PARAM_PREVIEW_AUTO_FOCUS_ON task a =
     bindE (taskDataInt task 0) (\<lambda>v.
       let prevValue = autoFocus (cur_preview a);
           a1 = cur_preview_update (autoFocus_update (\<lambda>_. v \<noteq> 0)) a
       in if toggle_restores prevValue (autoFocus (cur_preview a1))
          then Inr (prev_preview_update
                      (evaluated_update (focus_update (\<lambda>_. focus (user (cur_preview a1)))))
                      a1)
          else Inr (cur_preview_update
                      (user_update (focus_update (\<lambda>_. focus (evaluated (prev_preview a1)))))
                      a1))"

definition case_PARAM_PREVIEW_AUTO_GAIN_ON ::
    "ParamSetRequest \<Rightarrow> AppThread \<Rightarrow> error + AppThread" where
  "case_PARAM_PREVIEW_AUTO_GAIN_ON task a =
     bindE (taskDataInt task 0) (\<lambda>v.
       let prevValue = autoGain (cur_preview a);
           a1 = cur_preview_update (autoGain_update (\<lambda>_. v \<noteq> 0)) a
       in if toggle_restores prevValue (autoGain (cur_preview a1))
          then Inr (prev_preview_update
                      (evaluated_update (gain_update (\<lambda>_. gain (user (cur_preview a1)))))
                      a1)
          else Inr (cur_preview_update
                      (user_update (gain_update (\<lambda>_. gain (evaluated (prev_preview a1)))))
                      a1))"

definition case_PARAM_PREVIEW_AUTO_WB_ON ::
    "ParamSetRequest \<Rightarrow> AppThread \<Rightarrow> error + AppThread" where
  "case_PARAM_PREVIEW_AUTO_WB_ON task a =
     bindE (taskDataInt task 0) (\<lambda>v.
       let prevValue = autoWB (cur_preview a);
           a1 = cur_preview_update (autoWB_update (\<lambda>_. v \<noteq> 0)) a
       in if toggle_restores prevValue (autoWB (cur_preview a1))
          then Inr (prev_preview_update
                      (evaluated_update (wb_update (\<lambda>_. wb (user (cur_preview a1)))))
                      a1)
          else Inr (cur_preview_update
                      (user_update (wb_update (\<lambda>_. wb (evaluated (prev_preview a1)))))
                      a1))"

definition case_PARAM_OUTPUT_DIRECTORY ::
    "ParamSetRequest \<Rightarrow> AppThread \<Rightarrow> error + AppThread" where
  \<comment> \<open>one-time async writer initialization\<close>
  "case_PARAM_OUTPUT_DIRECTORY task a =
     (if writer a = None
      then bindE (c_string (getData task)) (\<lambda>dir.
           bindE (AsyncImageWriter_new dir) (\<lambda>w.
             Inr (a\<lparr>writer :=
                      Some (setOnFileSystemChangedCallback (Some OnFileSystemChanged) w)\<rparr>)))
      else Inr a)"

definition case_PARAM_TAKE_PICTURE ::
    "ParamSetRequest \<Rightarrow> AppThread \<Rightarrow> error + event list \<times> AppThread" where
  \<comment> \<open>take pictures only if we can write them out\<close>
  "case_PARAM_TAKE_PICTURE task a =
     (if writer a \<noteq> None
      then bindE (getDataAsInt task) (\<lambda>v.
             if v \<noteq> 0
             then bindE (Camera_capture (camera a)) (\<lambda>evs.
                    Inr ([NotifyCaptureStart] @ evs @ [NotifyCaptureComplete],
                         a\<lparr>isCapturing := False\<rparr>))
             else Inr ([], a))
      else Inr ([], a))"

definition case_PARAM_SELECT_CAMERA ::
    "ParamSetRequest \<Rightarrow> AppThread \<Rightarrow> error + event list \<times> AppThread" where
  "case_PARAM_SELECT_CAMERA task a =
     bindE (taskDataInt task 0) (\<lambda>v.
       let replace = (\<lambda>mode.
             if m_currentMode (camera a) \<noteq> mode
             then Inr ([CameraReplaced mode], a\<lparr>camera := Camera_new 960 720 mode\<rparr>)
             else Inr ([], a))
       in if v = SELECT_FRONT_CAMERA then replace Front
          else if v = SELECT_BACK_CAMERA then replace Back
          else if v = SELECT_STEREO_CAMERA then replace Stereo
          else Inr ([], a))"

definition case_TOUCH ::
    "(float \<Rightarrow> int \<Rightarrow> int) \<Rightarrow> ParamSetRequest \<Rightarrow> AppThread \<Rightarrow> error + AppThread" where
  \<comment> \<open>\<open>scale f n\<close> stands for the conversion to int of the float product f * n\<close>
  "case_TOUCH scale task a =
     bindE (taskDataFloat task 0) (\<lambda>fx.
     bindE (taskDataFloat task 1) (\<lambda>fy.
       Inr (a\<lparr>touchX := scale fx (m_imageWidth (camera a)),
              touchY := scale fy (m_imageHeight (camera a)),
              touchAction := (if getId task = PARAM_FOCUS_ON_TOUCH then TOUCH_ACTION_FOCUS
                              else TOUCH_ACTION_WHITE_BALANCE)\<rparr>)))"

definition silent :: "error + AppThread \<Rightarrow> error + event list \<times> AppThread" where
  "silent r = bindE r (\<lambda>a. Inr ([], a))"

definition dispatchTask ::
    "(float \<Rightarrow> int \<Rightarrow> int) \<Rightarrow> ParamSetRequest \<Rightarrow> AppThread \<Rightarrow> error + event list \<times> AppThread" where
  \<comment> \<open>the body of \<open>switch ( taskId )\<close>, cases in source order\<close>
  "dispatchTask scale task a =
     (let taskId = getId task AND 0xffff;
          pictureId = drop_bit 16 (getId task)
      in if taskId = PARAM_SHOT then silent (case_PARAM_SHOT pictureId task a)
         else if taskId = PARAM_PREVIEW_EXPOSURE then
           silent (bindE (taskDataFloat task 0) (\<lambda>f.
             Inr (cur_preview_update (user_update (exposure_update (\<lambda>_. f))) a)))
         else if taskId = PARAM_PREVIEW_FOCUS then
           silent (bindE (taskDataFloat task 0) (\<lambda>f.
             Inr (cur_preview_update (user_update (focus_update (\<lambda>_. f))) a)))
         else if taskId = PARAM_PREVIEW_GAIN then
           silent (bindE (taskDataFloat task 0) (\<lambda>f.
             Inr (cur_preview_update (user_update (gain_update (\<lambda>_. f))) a)))
         else if taskId = PARAM_PREVIEW_WB then
           silent (bindE (taskDataFloat task 0) (\<lambda>f.
             Inr (cur_preview_update (user_update (wb_update (\<lambda>_. f))) a)))
         else if taskId = PARAM_PREVIEW_AUTO_EXPOSURE_ON then
           silent (case_PARAM_PREVIEW_AUTO_EXPOSURE_ON task a)
         else if taskId = PARAM_PREVIEW_AUTO_FOCUS_ON then
           silent (case_PARAM_PREVIEW_AUTO_FOCUS_ON task a)
         else if taskId = PARAM_PREVIEW_AUTO_GAIN_ON then
           silent (case_PARAM_PREVIEW_AUTO_GAIN_ON task a)
         else if taskId = PARAM_PREVIEW_AUTO_WB_ON then
           silent (case_PARAM_PREVIEW_AUTO_WB_ON task a)
         else if taskId = PARAM_RESOLUTION then Inr ([], a)
         else if taskId = PARAM_BURST_SIZE then
           silent (bindE (taskDataInt task 0) (\<lambda>v.
             Inr (camera_update (m_currentState_update (pendingImagesCount_update (\<lambda>_. v))) a)))
         else if taskId = PARAM_OUTPUT_FORMAT then Inr ([], a)
         else if taskId = PARAM_VIEWER_ACTIVE then
           bindE (taskDataInt task 0) (\<lambda>v.
             Inr (if v \<noteq> 0 then [] else [SensorStopStreaming],
                  a\<lparr>isViewerActive := (v \<noteq> 0)\<rparr>))
         else if taskId = PARAM_OUTPUT_DIRECTORY then
           silent (case_PARAM_OUTPUT_DIRECTORY task a)
         else if taskId = PARAM_OUTPUT_FILE_ID then
           bindE (taskDataInt task 0) (\<lambda>v. Inr ([WriterSetFreeFileId v], a))
         else if taskId = PARAM_TAKE_PICTURE then case_PARAM_TAKE_PICTURE task a
         else if taskId = PARAM_PRIV_FS_CHANGED then
           bindE (taskDataInt task 0) (\<lambda>v.
             Inr (if v \<noteq> 0 then [NotifyFileSystemChange] else [], a))
         else if taskId = PARAM_SELECT_CAMERA then case_PARAM_SELECT_CAMERA task a
         else if taskId = PARAM_FOCUS_ON_TOUCH \<or> taskId = PARAM_WB_ON_TOUCH then
           silent (case_TOUCH scale task a)
         else Inr ([LogError (''TaskDispatch(): received unsupported task id ('' @ fmt_i taskId
                           @ '')!'')], a))"

text \<open>
  The head of each iteration of the thread's loop: the touch variables are reset, the
  request queue is copied out with \<open>consumeAll\<close>, and the tasks are dispatched in order.
\<close>

fun dispatchAll ::
    "(float \<Rightarrow> int \<Rightarrow> int) \<Rightarrow> ParamSetRequest list \<Rightarrow> AppThread
       \<Rightarrow> error + event list \<times> AppThread" where
  "dispatchAll scale [] a = Inr ([], a)"
| "dispatchAll scale (task # taskQueue) a =
     bindE (dispatchTask scale task a) (\<lambda>(evs, a').
     bindE (dispatchAll scale taskQueue a') (\<lambda>(evs', a'').
       Inr (evs @ evs', a'')))"

definition resolveRequests ::
    "(float \<Rightarrow> int \<Rightarrow> int) \<Rightarrow> AppThread \<Rightarrow> error + event list \<times> AppThread" where
  "resolveRequests scale a =
     (let a0 = a\<lparr>touchX := 0, touchY := 0, touchAction := TOUCH_ACTION_NONE\<rparr>;
          (taskQueue, q') = consumeAll [] (requestQueue a0)
      in dispatchAll scale taskQueue (a0\<lparr>requestQueue := q'\<rparr>))"

section \<open>JNI entry points that queue requests (FCamInterface.cpp)\<close>

definition setParamInt :: "int \<Rightarrow> 32 word \<Rightarrow> AppThread \<Rightarrow> AppThread" where
  "setParamInt param v a =
     a\<lparr>requestQueue := produce (ParamSetRequest_new param (store32 v) 4) (requestQueue a)\<rparr>"

definition setParamFloat :: "int \<Rightarrow> float \<Rightarrow> AppThread \<Rightarrow> AppThread" where
  "setParamFloat param v a =
     a\<lparr>requestQueue := produce (ParamSetRequest_new param (store32 v) 4) (requestQueue a)\<rparr>"

definition setParamFloatArray :: "int \<Rightarrow> float list \<Rightarrow> AppThread \<Rightarrow> event list \<times> AppThread" where
  \<comment> \<open>the events are the ERROR log lines; \<open>value\<close> is the Java float array\<close>
  "setParamFloatArray param val a =
     (let paramId = param AND 0xffff;
          arraySize = int (length val);
          queued = a\<lparr>requestQueue :=
                       produce (ParamSetRequest_new param (concat (map store32 val))
                                  (arraySize * 4))
                               (requestQueue a)\<rparr>
      in if paramId = PARAM_SHOT then
           (if arraySize \<noteq> 5
            then ([LogError ''setParamFloatArray(PARAM_SHOT): incorrect array size!''], a)
            else ([], queued))
         else if paramId = PARAM_FOCUS_ON_TOUCH \<or> paramId = PARAM_WB_ON_TOUCH then
           (if arraySize \<noteq> 2
            then ([LogError (if paramId = PARAM_FOCUS_ON_TOUCH
                             then ''setParamFloatArray(PARAM_FOCUS_ON_TOUCH): incorrect array size!''
                             else ''setParamFloatArray(PARAM_WB_ON_TOUCH): incorrect array size!'')],
                  a)
            else ([], queued))
         else ([LogError (''setParamFloatArray('' @ fmt_i paramId
                          @ ''): received unsupported param id!'')], a))"

definition setParamString :: "int \<Rightarrow> string \<Rightarrow> AppThread \<Rightarrow> AppThread" where
  \<comment> \<open>strlen( str ) + 1 bytes: the characters and the terminating NUL\<close>
  "setParamString param str a =
     a\<lparr>requestQueue :=
         produce (ParamSetRequest_new param (map (\<lambda>c. of_nat (of_char c)) str @ [0])
                    (int (length str) + 1))
                 (requestQueue a)\<rparr>"

text \<open>
  The state in which FCamAppThread enters its loop: back camera, no image writer yet
  (\<open>writer = 0\<close>), \<open>previousState\<close> a copy of the camera's state. \<open>q\<close> is whatever the
  Java side has queued by then.
\<close>

definition AppThread_start :: "ParamSetRequest WorkQueue \<Rightarrow> AppThread" where
  "AppThread_start q =
     \<lparr>camera = Camera_new 960 720 Back, writer = None, requestQueue = q,
      previousState = zero_CaptureState, isCapturing = False, isViewerActive = False,
      touchX = 0, touchY = 0, touchAction = TOUCH_ACTION_NONE\<rparr>"

definition taskIdOf :: "ParamSetRequest \<Rightarrow> int" where
  \<comment> \<open>int taskId = task.getId() & 0xffff\<close>
  "taskIdOf task = getId task AND 0xffff"

section \<open>ImageSet and its persistence routine (AsyncImageWriter.h, AsyncImageWriter.cpp)\<close>

text \<open>
  An FCam frame is the collaborator's object; the model keeps what \<open>dumpToFileSystem\<close>
  reads from it: \<open>valid()\<close>, the flash and lens tags, gain, exposure and white balance.
  Files are written through events: \<open>FileWritten path text\<close> is the fopen/fprintf/fclose
  sequence on the descriptor, \<open>SaveJPEG\<close> and \<open>SaveThumbnail\<close> are the two
  \<open>FCam::saveJPEG\<close> calls, \<open>CallbackInvoked\<close> is a call through the callback pointer.
  The source has no I/O error path ("TODO: add i/o error support"): the model describes
  the runs in which the files open and the paths fit the 128-byte name buffers.
\<close>

record Frame =
  valid :: bool
  flash_brightness :: float
  frame_gain :: float
  frame_exposure :: int
  frame_whiteBalance :: int
  lens_focus :: float

datatype EFormats = EFormatJPEG | EFormatTIFF | EFormatDNG | EFormatRAW

record FileFormatDescriptor =
  m_format :: EFormats
  m_quality :: int

definition getFormat :: "FileFormatDescriptor \<Rightarrow> EFormats" where
  "getFormat ff = m_format ff"

definition getQuality :: "FileFormatDescriptor \<Rightarrow> int" where
  "getQuality ff = m_quality ff"

record ImageSet =
  m_frames :: "Frame list"
  m_frameFormat :: "FileFormatDescriptor list"
  m_outputDirPrefix_of_set :: string
  m_fileId :: int

definition ImageSet_new :: "int \<Rightarrow> string \<Rightarrow> ImageSet" where
  "ImageSet_new ident outputDirPrefix =
     \<lparr>m_frames = [], m_frameFormat = [],
      m_outputDirPrefix_of_set = outputDirPrefix, m_fileId = ident\<rparr>"

definition add :: "FileFormatDescriptor \<Rightarrow> Frame \<Rightarrow> ImageSet \<Rightarrow> ImageSet" where
  "add ff frame s =
     s\<lparr>m_frames := m_frames s @ [frame], m_frameFormat := m_frameFormat s @ [ff]\<rparr>"

fun add_all :: "(FileFormatDescriptor \<times> Frame) list \<Rightarrow> ImageSet \<Rightarrow> ImageSet" where
  "add_all [] s = s"
| "add_all ((ff, frame) # rest) s = add_all rest (add ff frame s)"

datatype fs_event =
    FileWritten string string
  | SaveJPEG string int
  | SaveThumbnail string int
  | CallbackInvoked callback

definition THUMBNAIL_WIDTH :: int where "THUMBNAIL_WIDTH = 384"
definition THUMBNAIL_HEIGHT :: int where "THUMBNAIL_HEIGHT = 288"
definition THUMBNAIL_QUALITY :: int where "THUMBNAIL_QUALITY = 95"

definition dquote :: string where "dquote = [CHR 0x22]"
definition newline :: string where "newline = [CHR 0x0A]"

definition sJpegExt :: string where "sJpegExt = ''jpg''"

definition sXmlName :: "int \<Rightarrow> string" where
  \<comment> \<open>img_%04i.xml\<close>
  "sXmlName ident = ''img_'' @ fmt_0i 4 ident @ ''.xml''"

definition sImageName :: "int \<Rightarrow> int \<Rightarrow> string \<Rightarrow> string" where
  \<comment> \<open>img_%04i_%02i.%s\<close>
  "sImageName ident i ext = ''img_'' @ fmt_0i 4 ident @ ''_'' @ fmt_0i 2 i @ ''.'' @ ext"

definition sThumbnailName :: "int \<Rightarrow> int \<Rightarrow> string" where
  \<comment> \<open>thumb_%04i_%02i.jpg\<close>
  "sThumbnailName ident i = ''thumb_'' @ fmt_0i 4 ident @ ''_'' @ fmt_0i 2 i @ ''.jpg''"

text \<open>
  The two places where \<open>dumpToFileSystem\<close> computes with floats are parameters:
  \<open>gain_x100 g\<close> is \<open>( int )( g * 100 )\<close> and \<open>fmt_2f f\<close> is the text \<open>%.2f\<close> prints.
\<close>

record float_ops =
  gain_x100 :: "float \<Rightarrow> int"
  fmt_2f :: "float \<Rightarrow> string"

function count_valid :: "Frame list \<Rightarrow> nat \<Rightarrow> int \<Rightarrow> int" where
  \<comment> \<open>the first loop: icount\<close>
  "count_valid frames i icount =
     (if i < length frames
      then count_valid frames (i + 1) (if valid (frames ! i) then icount + 1 else icount)
      else icount)"
  by pat_completeness auto
termination
  by (relation "measure (\<lambda>(frames, i, icount). length frames - i)") auto

definition xml_image :: "float_ops \<Rightarrow> int \<Rightarrow> nat \<Rightarrow> Frame \<Rightarrow> string" where
  \<comment> \<open>the fprintf calls of one valid frame, frame index \<open>i\<close>\<close>
  "xml_image ops ident i frame =
     ''<image ''
     @ ''name='' @ dquote @ sImageName ident (int i) sJpegExt @ dquote @ '' ''
     @ ''thumbnail='' @ dquote @ sThumbnailName ident (int i) @ dquote @ '' ''
     @ ''flash='' @ dquote
         @ fmt_i (if float_gt_zero (flash_brightness frame) then 1 else 0) @ dquote @ '' ''
     @ ''gain='' @ dquote @ fmt_i (gain_x100 ops (frame_gain frame)) @ dquote @ '' ''
     @ ''exposure='' @ dquote @ fmt_i (frame_exposure frame) @ dquote @ '' ''
     @ ''wb='' @ dquote @ fmt_i (frame_whiteBalance frame) @ dquote @ '' ''
     @ ''focus='' @ dquote @ fmt_2f ops (lens_focus frame) @ dquote @ '' ''
     @ ''/>'' @ newline"

function xml_images :: "float_ops \<Rightarrow> int \<Rightarrow> Frame list \<Rightarrow> nat \<Rightarrow> string \<Rightarrow> string" where
  \<comment> \<open>the second loop; \<open>xml\<close> is the text written to the file so far\<close>
  "xml_images ops ident frames i xml =
     (if i < length frames
      then (let frame = frames ! i
            in xml_images ops ident frames (i + 1)
                 (if valid frame then xml @ xml_image ops ident i frame else xml))
      else xml)"
  by pat_completeness auto
termination
  by (relation "measure (\<lambda>(ops, ident, frames, i, xml). length frames - i)") auto

definition notify :: "callback option \<Rightarrow> fs_event list" where
  \<comment> \<open>if ( onFileSystemChange != 0 ) onFileSystemChange();\<close>
  "notify onFileSystemChange =
     (case onFileSystemChange of None \<Rightarrow> [] | Some cb \<Rightarrow> [CallbackInvoked cb])"

definition frame_files :: "callback option \<Rightarrow> ImageSet \<Rightarrow> nat \<Rightarrow> fs_event list" where
  \<comment> \<open>the body of the third loop for the valid frame at index \<open>i\<close>: write image,
      write thumbnail, notify fs change\<close>
  "frame_files onFileSystemChange s i =
     (case getFormat (m_frameFormat s ! i) of
        EFormatJPEG \<Rightarrow>
          [SaveJPEG (m_outputDirPrefix_of_set s @ sImageName (m_fileId s) (int i) sJpegExt)
                    (getQuality (m_frameFormat s ! i))]
      | _ \<Rightarrow> [])
     @ [SaveThumbnail (m_outputDirPrefix_of_set s @ sThumbnailName (m_fileId s) (int i))
                      THUMBNAIL_QUALITY]
     @ notify onFileSystemChange"

function data_files ::
    "callback option \<Rightarrow> ImageSet \<Rightarrow> nat \<Rightarrow> fs_event list \<Rightarrow> error + fs_event list" where
  \<comment> \<open>the third loop; reading m_frameFormat[i] past its end is an error\<close>
  "data_files onFileSystemChange s i evs =
     (if i < length (m_frames s)
      then (if valid (m_frames s ! i)
            then (if i < length (m_frameFormat s)
                  then data_files onFileSystemChange s (i + 1)
                         (evs @ frame_files onFileSystemChange s i)
                  else Inl OutOfBounds)
            else data_files onFileSystemChange s (i + 1) evs)
      else Inr evs)"
  by pat_completeness auto
termination
  by (relation "measure (\<lambda>(cb, s, i, evs). length (m_frames s) - i)") auto

definition dumpToFileSystem ::
    "float_ops \<Rightarrow> callback option \<Rightarrow> ImageSet \<Rightarrow> error + fs_event list" where
  "dumpToFileSystem ops onFileSystemChange s =
     (let icount = count_valid (m_frames s) 0 0
      in if icount = 0 then Inr []
         else (let xml = ''<?xml version='' @ dquote @ ''1.0'' @ dquote
                         @ '' encoding='' @ dquote @ ''utf-8'' @ dquote @ ''?>'' @ newline
                         @ ''<imagestack imagecount='' @ dquote @ fmt_i icount @ dquote
                         @ ''>'' @ newline;
                   xml' = xml_images ops (m_fileId s) (m_frames s) 0 xml
                          @ ''</imagestack>'' @ newline
               in data_files onFileSystemChange s 0
                    ([FileWritten (m_outputDirPrefix_of_set s @ sXmlName (m_fileId s)) xml']
                     @ notify onFileSystemChange)))"

text \<open>
  The descriptor as the specification words it: a root element carrying the number of
  valid frames, then one record per valid frame, in frame order, named after the set id
  and the frame's own position in the set.
\<close>

definition valid_positions :: "Frame list \<Rightarrow> nat list" where
  "valid_positions frames = filter (\<lambda>i. valid (frames ! i)) [0 ..< length frames]"

definition descriptor_text :: "float_ops \<Rightarrow> int \<Rightarrow> Frame list \<Rightarrow> string" where
  "descriptor_text ops ident frames =
     ''<?xml version='' @ dquote @ ''1.0'' @ dquote
     @ '' encoding='' @ dquote @ ''utf-8'' @ dquote @ ''?>'' @ newline
     @ ''<imagestack imagecount='' @ dquote
         @ fmt_i (int (length (filter valid frames))) @ dquote @ ''>'' @ newline
     @ concat (map (\<lambda>i. xml_image ops ident i (frames ! i)) (valid_positions frames))
     @ ''</imagestack>'' @ newline"

definition is_callback :: "fs_event \<Rightarrow> bool" where
  "is_callback e = (case e of CallbackInvoked _ \<Rightarrow> True | _ \<Rightarrow> False)"


declare digits.simps [simp del] count_valid.simps [simp del] xml_images.simps [simp del]
  data_files.simps [simp del]

text \<open>
  A sample set for the concrete checks below: three JPEG frames, the middle one not valid,
  the last one taken with the flash.
\<close>

definition sample_frame :: "bool \<Rightarrow> float \<Rightarrow> Frame" where
  "sample_frame ok flash =
     \<lparr>valid = ok, flash_brightness = flash, frame_gain = 0x3F800000, frame_exposure = 10000,
      frame_whiteBalance = 5500, lens_focus = 0x40A00000\<rparr>"

definition sample_items :: "(FileFormatDescriptor \<times> Frame) list" where
  "sample_items =
     [(\<lparr>m_format = EFormatJPEG, m_quality = 95\<rparr>, sample_frame True 0),
      (\<lparr>m_format = EFormatJPEG, m_quality = 95\<rparr>, sample_frame False 0),
      (\<lparr>m_format = EFormatJPEG, m_quality = 95\<rparr>, sample_frame True 0x3F800000)]"

definition sample_ops :: float_ops where
  "sample_ops = \<lparr>gain_x100 = (\<lambda>g. 100), fmt_2f = (\<lambda>f. ''5.00'')\<rparr>"

section \<open>Thumbnail downsampling (AsyncImageWriter.cpp)\<close>

text \<open>
  \<open>int\<close> is 32 bits wide on the target. An \<open>int\<close> expression is computed on unbounded
  integers and brought back into range by \<open>int32\<close> (two's complement wrap-around);
  \<open>>> 16\<close> on an \<open>int\<close> is the arithmetic shift \<open>drop_bit 16\<close>, \<open>/\<close> truncates towards
  zero (\<open>sdiv\<close>). The loop counters stay below their bounds and need no wrap. A plane is
  the list of its bytes; an access outside the list is an error.
\<close>

definition int32 :: "int \<Rightarrow> int" where
  "int32 k = signed_take_bit 31 k"

definition THUMBNAIL_BLUR_RADIUS :: int where "THUMBNAIL_BLUR_RADIUS = 5"

definition THUMBNAIL_BLUR_NORM :: int where
  "THUMBNAIL_BLUR_NORM = 0x10000 sdiv (THUMBNAIL_BLUR_RADIUS * THUMBNAIL_BLUR_RADIUS)"

definition readPixel :: "uchar list \<Rightarrow> int \<Rightarrow> error + int" where
  \<comment> \<open>src[k], promoted to int\<close>
  "readPixel src k =
     (if 0 \<le> k \<and> k < int (length src) then Inr (uint (src ! nat k)) else Inl OutOfBounds)"

definition writePixel :: "uchar list \<Rightarrow> int \<Rightarrow> int \<Rightarrow> error + uchar list" where
  \<comment> \<open>dest[k] = v, converted to unsigned char\<close>
  "writePixel dest k v =
     (if 0 \<le> k \<and> k < int (length dest) then Inr (dest[nat k := word_of_int v])
      else Inl OutOfBounds)"

function blur_x :: "uchar list \<Rightarrow> int \<Rightarrow> int \<Rightarrow> int \<Rightarrow> error + int" where
  \<comment> \<open>for ( x ... ) sum += src[srcindex + x]; \<open>acc\<close> is the variable sum\<close>
  "blur_x src srcindex x acc =
     (if x < THUMBNAIL_BLUR_RADIUS
      then bindE (readPixel src (int32 (srcindex + x)))
             (\<lambda>p. blur_x src srcindex (x + 1) (int32 (acc + p)))
      else Inr acc)"
  by pat_completeness auto
termination
  by (relation "measure (\<lambda>(src, srcindex, x, acc). nat (THUMBNAIL_BLUR_RADIUS - x))") auto

function blur_y :: "uchar list \<Rightarrow> int \<Rightarrow> int \<Rightarrow> int \<Rightarrow> int \<Rightarrow> error + int" where
  \<comment> \<open>for ( y ... ) { the x loop; srcindex += srcWidth; }\<close>
  "blur_y src srcWidth srcindex y acc =
     (if y < THUMBNAIL_BLUR_RADIUS
      then bindE (blur_x src srcindex 0 acc)
             (\<lambda>acc'. blur_y src srcWidth (int32 (srcindex + srcWidth)) (y + 1) acc')
      else Inr acc)"
  by pat_completeness auto
termination
  by (relation "measure (\<lambda>(src, srcWidth, srcindex, y, acc). nat (THUMBNAIL_BLUR_RADIUS - y))")
     auto

function columns ::
    "uchar list \<Rightarrow> int \<Rightarrow> int \<Rightarrow> int \<Rightarrow> int \<Rightarrow> int \<Rightarrow> int \<Rightarrow> int \<Rightarrow> uchar list
       \<Rightarrow> error + uchar list \<times> int" where
  \<comment> \<open>the loop on \<open>j\<close>; returns dest and dstindex\<close>
  "columns src srcWidth dstWidth ax rowindex j tx dstindex dest =
     (if j < dstWidth
      then bindE (blur_y src srcWidth (int32 (rowindex + drop_bit 16 tx)) 0 0)
             (\<lambda>acc.
           bindE (writePixel dest dstindex (drop_bit 16 (int32 (acc * THUMBNAIL_BLUR_NORM))))
             (\<lambda>dest'.
           columns src srcWidth dstWidth ax rowindex (j + 1) (int32 (tx + ax))
             (int32 (dstindex + 1)) dest'))
      else Inr (dest, dstindex))"
  by pat_completeness auto
termination
  by (relation "measure (\<lambda>(src, srcWidth, dstWidth, ax, rowindex, j, tx, dstindex, dest).
                            nat (dstWidth - j))")
     auto

function rows ::
    "uchar list \<Rightarrow> int \<Rightarrow> int \<Rightarrow> int \<Rightarrow> int \<Rightarrow> int \<Rightarrow> int \<Rightarrow> int \<Rightarrow> int \<Rightarrow> uchar list
       \<Rightarrow> error + uchar list" where
  \<comment> \<open>the loop on \<open>i\<close>\<close>
  "rows src srcWidth dstWidth dstHeight ax ay i ty dstindex dest =
     (if i < dstHeight
      then bindE (columns src srcWidth dstWidth ax (int32 (drop_bit 16 ty * srcWidth)) 0 0
                    dstindex dest)
             (\<lambda>(dest', dstindex').
           rows src srcWidth dstWidth dstHeight ax ay (i + 1) (int32 (ty + ay)) dstindex' dest')
      else Inr dest)"
  by pat_completeness auto
termination
  by (relation "measure (\<lambda>(src, srcWidth, dstWidth, dstHeight, ax, ay, i, ty, dstindex, dest).
                            nat (dstHeight - i))")
     auto

definition DownsampleChannel ::
    "uchar list \<Rightarrow> int \<Rightarrow> int \<Rightarrow> uchar list \<Rightarrow> int \<Rightarrow> int \<Rightarrow> error + uchar list" where
  \<comment> \<open>returns the destination plane after the call\<close>
  "DownsampleChannel dest dstWidth dstHeight src srcWidth srcHeight =
     (if dstWidth = 0 \<or> dstHeight = 0 then Inl DivisionByZero
      else (let ax = int32 (int32 (int32 (srcWidth - (THUMBNAIL_BLUR_RADIUS AND NOT 1))
                                     * 2 ^ 16) sdiv dstWidth);
                ay = int32 (int32 (int32 (srcHeight - (THUMBNAIL_BLUR_RADIUS AND NOT 1))
                                     * 2 ^ 16) sdiv dstHeight)
            in rows src srcWidth dstWidth dstHeight ax ay 0 0 0 dest))"

declare blur_x.simps [simp del] blur_y.simps [simp del] columns.simps [simp del]
  rows.simps [simp del]

text \<open>
  What the routine computes, worded from the specification: the output pixel of row \<open>i\<close>
  and column \<open>j\<close> is the sum of the 5 x 5 window of source pixels whose corner is at row
  \<open>(i * ay) >> 16\<close>, column \<open>(j * ax) >> 16\<close>, times the normalization constant, shifted
  right by 16 and kept as a byte.
\<close>

definition window_sum :: "uchar list \<Rightarrow> int \<Rightarrow> int \<Rightarrow> int" where
  "window_sum src srcWidth corner =
     sum_list (map (\<lambda>y. sum_list (map (\<lambda>x. uint (src ! nat (corner + int y * srcWidth + int x)))
                                       [0 ..< 5]))
                   [0 ..< 5])"

definition step_x :: "int \<Rightarrow> int \<Rightarrow> int" where
  "step_x srcWidth dstWidth = ((srcWidth - 4) * 65536) div dstWidth"

definition window_pixel :: "uchar list \<Rightarrow> int \<Rightarrow> int \<Rightarrow> uchar" where
  "window_pixel src srcWidth corner =
     word_of_int (drop_bit 16 (window_sum src srcWidth corner * 2621))"

definition box_pixel :: "uchar list \<Rightarrow> int \<Rightarrow> int \<Rightarrow> int \<Rightarrow> nat \<Rightarrow> nat \<Rightarrow> uchar" where
  "box_pixel src srcWidth ax ay i j =
     window_pixel src srcWidth
       (drop_bit 16 (int i * ay) * srcWidth + drop_bit 16 (int j * ax))"

definition box_filter ::
    "uchar list \<Rightarrow> int \<Rightarrow> int \<Rightarrow> int \<Rightarrow> int \<Rightarrow> uchar list" where
  "box_filter src srcWidth srcHeight dstWidth dstHeight =
     concat (map (\<lambda>i. map (\<lambda>j. box_pixel src srcWidth (step_x srcWidth dstWidth)
                                   (step_x srcHeight dstHeight) i j)
                            [0 ..< nat dstWidth])
                 [0 ..< nat dstHeight])"

text \<open>Partial sums of the window, for the loop invariants of the two blur loops.\<close>

definition row_sum :: "uchar list \<Rightarrow> int \<Rightarrow> nat \<Rightarrow> int" where
  "row_sum src k x = sum_list (map (\<lambda>x'. uint (src ! nat (k + int x'))) [x ..< 5])"

definition win_sum :: "uchar list \<Rightarrow> int \<Rightarrow> int \<Rightarrow> nat \<Rightarrow> int" where
  "win_sum src W corner y = sum_list (map (\<lambda>y'. row_sum src (corner + int y' * W) 0) [y ..< 5])"

section \<open>Properties of TripleBuffer\<close>











text \<open>
  C1, as stated, fails on its last clause. The producer only ever owns the back and the
  spare slot, so it alternates between two buffers: at the third \<open>swapBackBuffer\<close> call
  the back buffer is again the buffer that was filled at the first call, and this is the
  buffer the next \<open>swapFrontBuffer\<close> returns (buffers \<open>0\<close>, \<open>1\<close>, \<open>2\<close> given to the
  constructor, \<open>N = 3\<close>).
\<close>

theorem swapFrontBuffer_earlier_buffer_counterexample:
  "(1::nat) < 3
   \<and> fst (swapFrontBuffer (swapBackBuffer_times 3 (TripleBuffer_new (0::nat) 1 2)))
       = m_backBuffer (swapBackBuffer_times (1 - 1) (TripleBuffer_new (0::nat) 1 2))"
  by (simp add: TripleBuffer_new_def swapBackBuffer_def swapFrontBuffer_def numeral_3_eq_3)



section \<open>Properties of WorkQueue\<close>

lemma wq_inv_new: "wq_inv WorkQueue_new"
  by (simp add: wq_inv_def WorkQueue_new_def)

lemma wq_inv_apply_call: "wq_inv q \<Longrightarrow> wq_inv (apply_call c q)"
  by (cases c)
     (auto simp: wq_inv_def produce_def consume_def consumeAll_def split: list.splits)

lemma wq_inv_run: "wq_inv q \<Longrightarrow> wq_inv (wq_run cs q)"
  by (induction cs arbitrary: q) (simp_all add: wq_inv_apply_call)

lemma wq_inv_reachable: "wq_inv (wq_run cs WorkQueue_new)"
  by (rule wq_inv_run [OF wq_inv_new])

lemma wq_inv_produce: "wq_inv q \<Longrightarrow> wq_inv (produce x q)"
  by (simp add: wq_inv_def produce_def)

lemma produce_all_queue:
  "m_queue (produce_all xs q) = m_queue q @ xs"
  by (induction xs arbitrary: q) (simp_all add: produce_def)

lemma wq_inv_produce_all: "wq_inv q \<Longrightarrow> wq_inv (produce_all xs q)"
  by (induction xs arbitrary: q) (simp_all add: wq_inv_produce)

lemma wq_empty_eq_new:
  "wq_inv q \<Longrightarrow> m_queue q = [] \<Longrightarrow> (q :: 'a WorkQueue) = WorkQueue_new"
  by (simp add: wq_inv_def WorkQueue_new_def)

lemma consume_head:
  "wq_inv q \<Longrightarrow> m_queue q = e # rest \<Longrightarrow>
     consume blocking q =
       (ReturnsTrue e, q\<lparr>m_queue := rest, m_counterSem := m_counterSem q - 1\<rparr>)"
  by (simp add: wq_inv_def consume_def)

lemma consume_empty:
  "wq_inv q \<Longrightarrow> m_queue q = [] \<Longrightarrow> consume False q = (ReturnsFalse, q)"
  by (simp add: wq_inv_def consume_def)

lemma consume_times_all:
  "wq_inv q \<Longrightarrow> m_queue q = ys \<Longrightarrow>
     consume_times (length ys) blocking (q :: 'a WorkQueue) =
       (map ReturnsTrue ys, WorkQueue_new)"
proof (induction ys arbitrary: q)
  case Nil
  then show ?case by (simp add: wq_empty_eq_new)
next
  case (Cons y ys)
  let ?q' = "q\<lparr>m_queue := ys, m_counterSem := m_counterSem q - 1\<rparr>"
  from Cons.prems have step: "consume blocking q = (ReturnsTrue y, ?q')"
    by (simp add: consume_head)
  from Cons.prems have "wq_inv ?q'" and "m_queue ?q' = ys"
    by (simp_all add: wq_inv_def)
  then have "consume_times (length ys) blocking ?q' = (map ReturnsTrue ys, WorkQueue_new)"
    by (rule Cons.IH)
  with step show ?case by simp
qed

lemma delivered_fifo:
  "wq_inv q \<Longrightarrow>
     delivered calls q @ m_queue (wq_run calls q) = m_queue q @ produced calls"
proof (induction calls arbitrary: q)
  case Nil
  show ?case by simp
next
  case (Cons c calls)
  show ?case
  proof (cases c)
    case (Produce x)
    have "wq_inv (produce x q)" using Cons.prems by (rule wq_inv_produce)
    from Cons.IH [OF this] show ?thesis
      by (simp add: Produce produce_def)
  next
    case (Consume blocking)
    have "wq_inv (snd (consume blocking q))"
      using wq_inv_apply_call [OF Cons.prems, of "Consume blocking"] by simp
    note ih = Cons.IH [OF this]
    show ?thesis
    proof (cases "m_queue q")
      case Nil
      with Cons.prems have
        "consume blocking q = (Suspended, q) \<or> consume blocking q = (ReturnsFalse, q)"
        by (cases blocking) (simp_all add: consume_def wq_inv_def)
      with ih Nil show ?thesis
        by (auto simp: Consume)
    next
      case (Cons e rest)
      with Cons.prems have
        "consume blocking q =
           (ReturnsTrue e, q\<lparr>m_queue := rest, m_counterSem := m_counterSem q - 1\<rparr>)"
        by (simp add: consume_head)
      with ih Cons show ?thesis
        by (simp add: Consume)
    qed
  next
    case ConsumeAll
    have "wq_inv (snd (consumeAll [] q))"
      using wq_inv_apply_call [OF Cons.prems, of ConsumeAll] by simp
    from Cons.IH [OF this] show ?thesis
      by (simp add: ConsumeAll consumeAll_def)
  qed
qed

text \<open>
  C2. On every queue state reachable from the constructor: \<open>produce\<close> (a total function,
  it has no failure result) appends its element at the tail; \<open>consume\<close> on a non-empty
  queue removes the head and returns true with it, in either mode; after further
  \<open>produce\<close> calls with items \<open>xs\<close>, as many \<open>consume\<close> calls as there are items
  return the queued items followed by \<open>xs\<close>, in production order, and empty the queue;
  \<open>consume\<close> with blocking = false on an empty queue returns false and leaves the queue
  as it was. For any interleaving of calls from the constructor on, the items handed out
  so far, followed by the items still queued, are the items produced, in production
  order.
\<close>

theorem workqueue_fifo_order:
  fixes calls :: "'a wq_call list"
  shows "m_queue (produce x (wq_run calls WorkQueue_new))
           = m_queue (wq_run calls WorkQueue_new) @ [x]
         \<and> (m_queue (wq_run calls WorkQueue_new) = e # rest \<longrightarrow>
              consume blocking (wq_run calls WorkQueue_new) =
                (ReturnsTrue e,
                 (wq_run calls WorkQueue_new)
                   \<lparr>m_queue := rest,
                    m_counterSem := m_counterSem (wq_run calls WorkQueue_new) - 1\<rparr>))
         \<and> consume_times (length (m_queue (wq_run calls WorkQueue_new)) + length xs) blocking
              (produce_all xs (wq_run calls WorkQueue_new))
             = (map ReturnsTrue (m_queue (wq_run calls WorkQueue_new) @ xs), WorkQueue_new)
         \<and> (m_queue (wq_run calls WorkQueue_new) = [] \<longrightarrow>
              consume False (wq_run calls WorkQueue_new)
                = (ReturnsFalse, wq_run calls WorkQueue_new))
         \<and> delivered calls WorkQueue_new @ m_queue (wq_run calls WorkQueue_new)
             = produced calls"
proof -
  let ?q = "wq_run calls (WorkQueue_new :: 'a WorkQueue)"
  have inv: "wq_inv ?q" by (rule wq_inv_reachable)
  have a: "m_queue (produce x ?q) = m_queue ?q @ [x]"
    by (simp add: produce_def)
  have b: "m_queue ?q = e # rest \<longrightarrow>
             consume blocking ?q =
               (ReturnsTrue e, ?q\<lparr>m_queue := rest, m_counterSem := m_counterSem ?q - 1\<rparr>)"
    using inv by (simp add: consume_head)
  have "consume_times (length (m_queue ?q @ xs)) blocking (produce_all xs ?q)
          = (map ReturnsTrue (m_queue ?q @ xs), WorkQueue_new)"
    by (rule consume_times_all [OF wq_inv_produce_all [OF inv] produce_all_queue])
  then have c: "consume_times (length (m_queue ?q) + length xs) blocking (produce_all xs ?q)
          = (map ReturnsTrue (m_queue ?q @ xs), WorkQueue_new)"
    by simp
  have d: "m_queue ?q = [] \<longrightarrow> consume False ?q = (ReturnsFalse, ?q)"
    using inv by (simp add: consume_empty)
  have e: "delivered calls WorkQueue_new @ m_queue ?q = produced calls"
    using delivered_fifo [OF wq_inv_new, of calls] by (simp add: WorkQueue_new_def)
  from a b c d e show ?thesis by blast
qed

theorem workqueue_fifo_order_witness:
  "m_queue (wq_run [Produce (7::nat), Produce 8] WorkQueue_new) = 7 # [8]
   \<and> consume True (wq_run [Produce (7::nat), Produce 8] WorkQueue_new)
       = (ReturnsTrue 7, \<lparr>m_queue = [8], m_counterSem = 1\<rparr>)
   \<and> m_queue (wq_run [Produce (7::nat), Consume False] WorkQueue_new) = []
   \<and> consume False (wq_run [Produce (7::nat), Consume False] WorkQueue_new)
       = (ReturnsFalse, WorkQueue_new)"
  using workqueue_fifo_order
          [where calls = "[Produce (7::nat), Produce 8]" and e = 7 and rest = "[8]"
             and blocking = True]
        workqueue_fifo_order
          [where calls = "[Produce (7::nat), Consume False]"]
  by (simp add: WorkQueue_new_def produce_def consume_def)

text \<open>
  C3. On every queue state reachable from the constructor, \<open>consumeAll\<close> hands all
  queued items, in order, to the caller's queue, whose earlier contents \<open>sink\<close> are
  overwritten, and leaves the work queue empty (the state of a fresh queue); a
  \<open>consume\<close> with blocking = false made right after returns false without suspending.
\<close>

theorem consumeAll_detaches_everything:
  fixes calls :: "'a wq_call list"
  shows "consumeAll sink (wq_run calls WorkQueue_new)
           = (m_queue (wq_run calls WorkQueue_new), WorkQueue_new)
         \<and> consume False (snd (consumeAll sink (wq_run calls WorkQueue_new)))
             = (ReturnsFalse, snd (consumeAll sink (wq_run calls WorkQueue_new)))"
proof -
  let ?q = "wq_run calls (WorkQueue_new :: 'a WorkQueue)"
  have inv: "wq_inv ?q" by (rule wq_inv_reachable)
  have a: "consumeAll sink ?q = (m_queue ?q, WorkQueue_new)"
  proof (cases "m_queue ?q = []")
    case True
    with inv show ?thesis by (simp add: consumeAll_def wq_empty_eq_new)
  next
    case False
    then show ?thesis by (simp add: consumeAll_def WorkQueue_new_def)
  qed
  then have "consume False (snd (consumeAll sink ?q)) = (ReturnsFalse, snd (consumeAll sink ?q))"
    by (simp add: consume_def WorkQueue_new_def)
  with a show ?thesis by simp
qed

section \<open>Properties of the task dispatch\<close>

lemma load32_store32: "load32 (store32 w) 0 = Inr w"
  unfolding store32_def load32_def
  apply simp
  apply (rule bit_word_eqI)
  apply (auto simp: bit_simps)
  subgoal for n by (cases "n < 24") simp_all
  done

lemma taskDataInt_new:
  "taskDataInt (ParamSetRequest_new p (store32 w) 4) 0 = Inr (sint w)"
  using load32_store32 [of w]
  by (simp add: taskDataInt_def getData_def ParamSetRequest_new_def bindE_def store32_def)

lemma getDataAsInt_new:
  "getDataAsInt (ParamSetRequest_new p (store32 w) 4) = Inr (sint w)"
  using load32_store32 [of w]
  by (simp add: getDataAsInt_def ParamSetRequest_new_def bindE_def store32_def)

lemma toggle_restores_iff: "toggle_restores p c = (\<not> p \<and> c)"
  by (cases p; cases c) (simp_all add: toggle_restores_def bool_int_def)

lemma sint32_eq_0_iff: "sint (w :: 32 word) = 0 \<longleftrightarrow> w = 0"
  by (rule signed_eq_0_iff)

lemma dispatch_auto_exposure:
  "dispatchTask scale (ParamSetRequest_new PARAM_PREVIEW_AUTO_EXPOSURE_ON (store32 w) 4) a
     = silent (case_PARAM_PREVIEW_AUTO_EXPOSURE_ON
                 (ParamSetRequest_new PARAM_PREVIEW_AUTO_EXPOSURE_ON (store32 w) 4) a)"
  by (simp add: dispatchTask_def getId_def ParamSetRequest_new_def param_ids Let_def)

text \<open>
  C6. The requests are those \<open>setParamInt\<close> builds (id and the four bytes of the value).
  From a state with auto-exposure on and \<open>previousState.preview.evaluated.exposure = E\<close>,
  dispatching PARAM_PREVIEW_AUTO_EXPOSURE_ON with value 0 succeeds, switches auto-exposure
  off and copies \<open>E\<close> into the user exposure; dispatching it again right away with a
  non-zero value (1 in particular) succeeds, switches auto-exposure on and leaves the
  evaluated exposure of the previous state equal to \<open>E\<close>.
\<close>

theorem auto_exposure_toggle_round_trip:
  assumes "autoExposure (cur_preview a)"
      and "exposure (evaluated (prev_preview a)) = E"
      and "v \<noteq> 0"
  shows "\<exists>a1 a2.
           dispatchTask scale (ParamSetRequest_new PARAM_PREVIEW_AUTO_EXPOSURE_ON (store32 0) 4) a
             = Inr ([], a1)
         \<and> \<not> autoExposure (cur_preview a1)
         \<and> exposure (user (cur_preview a1)) = E
         \<and> dispatchTask scale (ParamSetRequest_new PARAM_PREVIEW_AUTO_EXPOSURE_ON (store32 v) 4) a1
             = Inr ([], a2)
         \<and> autoExposure (cur_preview a2)
         \<and> exposure (evaluated (prev_preview a2)) = E
         \<and> exposure (user (cur_preview a2)) = E"
  using assms
  by (simp add: dispatch_auto_exposure silent_def bindE_def
        case_PARAM_PREVIEW_AUTO_EXPOSURE_ON_def taskDataInt_new toggle_restores_iff
        sint32_eq_0_iff Let_def cur_preview_def prev_preview_def cur_preview_update_def
        prev_preview_update_def)

theorem auto_exposure_toggle_round_trip_witness:
  "autoExposure (cur_preview
      (cur_preview_update (autoExposure_update (\<lambda>_. True))
         (prev_preview_update (evaluated_update (exposure_update (\<lambda>_. 1234)))
            (AppThread_start WorkQueue_new))))
   \<and> exposure (evaluated (prev_preview
        (cur_preview_update (autoExposure_update (\<lambda>_. True))
           (prev_preview_update (evaluated_update (exposure_update (\<lambda>_. 1234)))
              (AppThread_start WorkQueue_new))))) = 1234
   \<and> (1 :: 32 word) \<noteq> 0
   \<and> (\<exists>a1 a2.
         dispatchTask (\<lambda>f n. 0)
           (ParamSetRequest_new PARAM_PREVIEW_AUTO_EXPOSURE_ON (store32 0) 4)
           (cur_preview_update (autoExposure_update (\<lambda>_. True))
              (prev_preview_update (evaluated_update (exposure_update (\<lambda>_. 1234)))
                 (AppThread_start WorkQueue_new)))
           = Inr ([], a1)
       \<and> \<not> autoExposure (cur_preview a1)
       \<and> exposure (user (cur_preview a1)) = 1234
       \<and> dispatchTask (\<lambda>f n. 0)
           (ParamSetRequest_new PARAM_PREVIEW_AUTO_EXPOSURE_ON (store32 1) 4) a1
           = Inr ([], a2)
       \<and> autoExposure (cur_preview a2)
       \<and> exposure (evaluated (prev_preview a2)) = 1234
       \<and> exposure (user (cur_preview a2)) = 1234)"
proof -
  let ?a = "cur_preview_update (autoExposure_update (\<lambda>_. True))
              (prev_preview_update (evaluated_update (exposure_update (\<lambda>_. 1234)))
                 (AppThread_start WorkQueue_new))"
  have h1: "autoExposure (cur_preview ?a)"
    by (simp add: cur_preview_def cur_preview_update_def)
  have h2: "exposure (evaluated (prev_preview ?a)) = 1234"
    by (simp add: prev_preview_def cur_preview_update_def prev_preview_update_def)
  have h3: "(1 :: 32 word) \<noteq> 0"
    by simp
  from auto_exposure_toggle_round_trip [OF h1 h2 h3, of "\<lambda>f n. 0"] h1 h2 h3
  show ?thesis by blast
qed

text \<open>
  C8. \<open>setParamFloatArray\<close> with parameter id PARAM_SHOT and an array whose length is not
  5, or with PARAM_FOCUS_ON_TOUCH or PARAM_WB_ON_TOUCH and a length other than 2, returns
  with the whole application state as it was (request queue and capture state included);
  its only effect is one ERROR log line.
\<close>

theorem setParamFloatArray_wrong_length_dropped:
  "(param AND 0xffff = PARAM_SHOT \<and> length val \<noteq> 5 \<longrightarrow>
      setParamFloatArray param val a =
        ([LogError ''setParamFloatArray(PARAM_SHOT): incorrect array size!''], a))
   \<and> ((param AND 0xffff = PARAM_FOCUS_ON_TOUCH \<or> param AND 0xffff = PARAM_WB_ON_TOUCH)
        \<and> length val \<noteq> 2 \<longrightarrow>
      (\<exists>msg. setParamFloatArray param val a = ([LogError msg], a)))"
  by (simp add: setParamFloatArray_def Let_def param_ids)

theorem setParamFloatArray_wrong_length_dropped_witness:
  "(0 :: int) AND 0xffff = PARAM_SHOT \<and> length [1, 2, 3 :: float] \<noteq> 5
   \<and> setParamFloatArray 0 [1, 2, 3] (AppThread_start WorkQueue_new)
       = ([LogError ''setParamFloatArray(PARAM_SHOT): incorrect array size!''],
          AppThread_start WorkQueue_new)
   \<and> (18 :: int) AND 0xffff = PARAM_FOCUS_ON_TOUCH \<and> length [1, 2, 3 :: float] \<noteq> 2
   \<and> (\<exists>msg. setParamFloatArray 18 [1, 2, 3] (AppThread_start WorkQueue_new)
               = ([LogError msg], AppThread_start WorkQueue_new))"
  using setParamFloatArray_wrong_length_dropped
          [of 0 "[1, 2, 3]" "AppThread_start WorkQueue_new"]
        setParamFloatArray_wrong_length_dropped
          [of 18 "[1, 2, 3]" "AppThread_start WorkQueue_new"]
  by (simp add: param_ids)

lemma silent_Inr:
  "silent r = Inr (evs, a') \<Longrightarrow> \<exists>a''. r = Inr a'' \<and> a' = a'' \<and> evs = []"
  by (cases r) (auto simp: silent_def bindE_def)

lemma bindE_Inr: "bindE r f = Inr y \<Longrightarrow> \<exists>v. r = Inr v \<and> f v = Inr y"
  by (cases r) (simp_all add: bindE_def)

lemma writer_cur_preview_update [simp]: "writer (cur_preview_update f a) = writer a"
  by (simp add: cur_preview_update_def)

lemma writer_prev_preview_update [simp]: "writer (prev_preview_update f a) = writer a"
  by (simp add: prev_preview_update_def)

lemma writer_case_PARAM_SHOT:
  "case_PARAM_SHOT p task a = Inr a' \<Longrightarrow> writer a' = writer a"
  by (auto simp: case_PARAM_SHOT_def split: if_splits dest!: bindE_Inr)

lemma writer_case_AUTO_EXPOSURE:
  "case_PARAM_PREVIEW_AUTO_EXPOSURE_ON task a = Inr a' \<Longrightarrow> writer a' = writer a"
  by (auto simp: case_PARAM_PREVIEW_AUTO_EXPOSURE_ON_def Let_def split: if_splits
           dest!: bindE_Inr)

lemma writer_case_AUTO_FOCUS:
  "case_PARAM_PREVIEW_AUTO_FOCUS_ON task a = Inr a' \<Longrightarrow> writer a' = writer a"
  by (auto simp: case_PARAM_PREVIEW_AUTO_FOCUS_ON_def Let_def split: if_splits
           dest!: bindE_Inr)

lemma writer_case_AUTO_GAIN:
  "case_PARAM_PREVIEW_AUTO_GAIN_ON task a = Inr a' \<Longrightarrow> writer a' = writer a"
  by (auto simp: case_PARAM_PREVIEW_AUTO_GAIN_ON_def Let_def split: if_splits
           dest!: bindE_Inr)

lemma writer_case_AUTO_WB:
  "case_PARAM_PREVIEW_AUTO_WB_ON task a = Inr a' \<Longrightarrow> writer a' = writer a"
  by (auto simp: case_PARAM_PREVIEW_AUTO_WB_ON_def Let_def split: if_splits
           dest!: bindE_Inr)

lemma writer_case_TAKE_PICTURE:
  "case_PARAM_TAKE_PICTURE task a = Inr (evs, a') \<Longrightarrow> writer a' = writer a"
  by (auto simp: case_PARAM_TAKE_PICTURE_def split: if_splits dest!: bindE_Inr)

lemma writer_case_SELECT_CAMERA:
  "case_PARAM_SELECT_CAMERA task a = Inr (evs, a') \<Longrightarrow> writer a' = writer a"
  by (auto simp: case_PARAM_SELECT_CAMERA_def Let_def split: if_splits dest!: bindE_Inr)

lemma writer_case_TOUCH:
  "case_TOUCH scale task a = Inr a' \<Longrightarrow> writer a' = writer a"
  by (auto simp: case_TOUCH_def split: if_splits dest!: bindE_Inr)

lemma dispatchTask_writer:
  assumes "taskIdOf task \<noteq> PARAM_OUTPUT_DIRECTORY"
      and "dispatchTask scale task a = Inr (evs, a')"
  shows "writer a' = writer a"
  using assms
  unfolding dispatchTask_def taskIdOf_def Let_def
  by (auto split: if_splits dest!: silent_Inr bindE_Inr
           dest: writer_case_PARAM_SHOT writer_case_AUTO_EXPOSURE writer_case_AUTO_FOCUS
                 writer_case_AUTO_GAIN writer_case_AUTO_WB writer_case_TAKE_PICTURE
                 writer_case_SELECT_CAMERA writer_case_TOUCH)

lemma dispatchAll_writer:
  "\<forall>t \<in> set ts. taskIdOf t \<noteq> PARAM_OUTPUT_DIRECTORY \<Longrightarrow>
   dispatchAll scale ts a = Inr (evs, a') \<Longrightarrow> writer a' = writer a"
proof (induction ts arbitrary: a evs)
  case Nil
  then show ?case by simp
next
  case (Cons t ts)
  from Cons.prems(2) obtain e1 a1 e2 where
    1: "dispatchTask scale t a = Inr (e1, a1)" and 2: "dispatchAll scale ts a1 = Inr (e2, a')"
    by (auto dest!: bindE_Inr)
  from Cons.prems(1) have "taskIdOf t \<noteq> PARAM_OUTPUT_DIRECTORY" by simp
  then have "writer a1 = writer a"
    using 1 by (rule dispatchTask_writer)
  moreover from Cons.prems(1) have "\<forall>t \<in> set ts. taskIdOf t \<noteq> PARAM_OUTPUT_DIRECTORY"
    by simp
  then have "writer a' = writer a1"
    using 2 by (rule Cons.IH)
  ultimately show ?case by simp
qed

text \<open>
  C9. A PARAM_TAKE_PICTURE task dispatched while the writer pointer is null produces no
  event at all (no capture-start or capture-complete notification, no sensor call, no
  image set created or pushed) and returns the thread state as it was; so does one whose
  integer payload is zero, whatever the writer. The writer pointer is null in the state
  the thread starts in and after any tasks dispatched from there, as long as none of them
  is a PARAM_OUTPUT_DIRECTORY task.
\<close>

theorem take_picture_without_writer_ignored:
  assumes "taskIdOf task = PARAM_TAKE_PICTURE"
  shows "(writer a = None \<longrightarrow> dispatchTask scale task a = Inr ([], a))
       \<and> (getDataAsInt task = Inr 0 \<longrightarrow> dispatchTask scale task a = Inr ([], a))
       \<and> ((\<forall>t \<in> set ts. taskIdOf t \<noteq> PARAM_OUTPUT_DIRECTORY)
            \<and> dispatchAll scale ts (AppThread_start q) = Inr (evs, b)
            \<longrightarrow> writer b = None \<and> dispatchTask scale task b = Inr ([], b))"
proof -
  have d: "dispatchTask scale task x = case_PARAM_TAKE_PICTURE task x" for x
    using assms by (simp add: dispatchTask_def taskIdOf_def param_ids Let_def)
  have n: "writer x = None \<Longrightarrow> case_PARAM_TAKE_PICTURE task x = Inr ([], x)" for x
    by (simp add: case_PARAM_TAKE_PICTURE_def)
  have z: "getDataAsInt task = Inr 0 \<Longrightarrow> case_PARAM_TAKE_PICTURE task a = Inr ([], a)"
    by (simp add: case_PARAM_TAKE_PICTURE_def bindE_def)
  have s: "writer b = None"
    if "\<forall>t \<in> set ts. taskIdOf t \<noteq> PARAM_OUTPUT_DIRECTORY"
       and "dispatchAll scale ts (AppThread_start q) = Inr (evs, b)"
    using dispatchAll_writer [OF that] by (simp add: AppThread_start_def)
  from d n z s show ?thesis by auto
qed

theorem take_picture_without_writer_ignored_witness:
  "taskIdOf (ParamSetRequest_new PARAM_TAKE_PICTURE (store32 1) 4) = PARAM_TAKE_PICTURE
   \<and> writer (AppThread_start WorkQueue_new) = None
   \<and> dispatchTask (\<lambda>f n. 0) (ParamSetRequest_new PARAM_TAKE_PICTURE (store32 1) 4)
        (AppThread_start WorkQueue_new)
       = Inr ([], AppThread_start WorkQueue_new)
   \<and> taskIdOf (ParamSetRequest_new PARAM_BURST_SIZE (store32 2) 4) \<noteq> PARAM_OUTPUT_DIRECTORY
   \<and> dispatchAll (\<lambda>f n. 0) [ParamSetRequest_new PARAM_BURST_SIZE (store32 2) 4]
        (AppThread_start WorkQueue_new)
       = Inr ([], camera_update (m_currentState_update (pendingImagesCount_update (\<lambda>_. 2)))
                    (AppThread_start WorkQueue_new))
   \<and> dispatchTask (\<lambda>f n. 0) (ParamSetRequest_new PARAM_TAKE_PICTURE (store32 1) 4)
        (camera_update (m_currentState_update (pendingImagesCount_update (\<lambda>_. 2)))
           (AppThread_start WorkQueue_new))
       = Inr ([], camera_update (m_currentState_update (pendingImagesCount_update (\<lambda>_. 2)))
                    (AppThread_start WorkQueue_new))
   \<and> taskIdOf (ParamSetRequest_new PARAM_TAKE_PICTURE (store32 0) 4) = PARAM_TAKE_PICTURE
   \<and> getDataAsInt (ParamSetRequest_new PARAM_TAKE_PICTURE (store32 0) 4) = Inr 0
   \<and> dispatchTask (\<lambda>f n. 0) (ParamSetRequest_new PARAM_TAKE_PICTURE (store32 0) 4)
        ((AppThread_start WorkQueue_new)
           \<lparr>writer := Some \<lparr>m_outputDirPrefix = ''/tmp/x/'',
                            m_onChangedCallback = Some OnFileSystemChanged\<rparr>\<rparr>)
       = Inr ([], (AppThread_start WorkQueue_new)
                    \<lparr>writer := Some \<lparr>m_outputDirPrefix = ''/tmp/x/'',
                                     m_onChangedCallback = Some OnFileSystemChanged\<rparr>\<rparr>)"
proof -
  let ?s = "\<lambda>(f :: float) (n :: int). (0 :: int)"
  let ?take1 = "ParamSetRequest_new PARAM_TAKE_PICTURE (store32 1) 4"
  let ?take0 = "ParamSetRequest_new PARAM_TAKE_PICTURE (store32 0) 4"
  let ?ts = "[ParamSetRequest_new PARAM_BURST_SIZE (store32 2) 4]"
  let ?a = "AppThread_start WorkQueue_new"
  let ?b = "camera_update (m_currentState_update (pendingImagesCount_update (\<lambda>_. 2))) ?a"
  let ?w = "?a\<lparr>writer := Some \<lparr>m_outputDirPrefix = ''/tmp/x/'',
                                m_onChangedCallback = Some OnFileSystemChanged\<rparr>\<rparr>"
  have id1: "taskIdOf ?take1 = PARAM_TAKE_PICTURE"
    by (simp add: taskIdOf_def getId_def ParamSetRequest_new_def param_ids)
  have id0: "taskIdOf ?take0 = PARAM_TAKE_PICTURE"
    by (simp add: taskIdOf_def getId_def ParamSetRequest_new_def param_ids)
  have nul: "writer ?a = None"
    by (simp add: AppThread_start_def)
  have other: "\<forall>t \<in> set ?ts. taskIdOf t \<noteq> PARAM_OUTPUT_DIRECTORY"
    by (simp add: taskIdOf_def getId_def ParamSetRequest_new_def param_ids)
  have "dispatchTask ?s (ParamSetRequest_new PARAM_BURST_SIZE (store32 2) 4) ?a = Inr ([], ?b)"
    using taskDataInt_new [of PARAM_BURST_SIZE 2]
    by (simp add: dispatchTask_def getId_def param_ids Let_def silent_def bindE_def)
       (simp add: ParamSetRequest_new_def)
  then have run: "dispatchAll ?s ?ts ?a = Inr ([], ?b)"
    by (simp add: bindE_def)
  have zero: "getDataAsInt ?take0 = Inr 0"
    using getDataAsInt_new [of PARAM_TAKE_PICTURE 0] by simp
  have other1: "taskIdOf (ParamSetRequest_new PARAM_BURST_SIZE (store32 2) 4)
                  \<noteq> PARAM_OUTPUT_DIRECTORY"
    using other by simp
  from take_picture_without_writer_ignored [OF id1, of ?a ?s ?ts WorkQueue_new "[]" ?b]
       take_picture_without_writer_ignored [OF id0, of ?w ?s]
       id1 id0 nul other other1 run zero
  show ?thesis by blast
qed

section \<open>Properties of the persistence routine\<close>

lemma upt_filter_step:
  "i < n \<Longrightarrow> filter P [i ..< n] = (if P i then [i] else []) @ filter P [i + 1 ..< n]"
  by (simp add: upt_conv_Cons)

lemma count_valid_eq:
  "count_valid frames i c = c + int (length (filter valid (drop i frames)))"
proof (induction frames i c rule: count_valid.induct)
  case (1 frames i icount)
  show ?case
  proof (cases "i < length frames")
    case True
    then have d: "drop i frames = frames ! i # drop (i + 1) frames"
      by (simp add: Cons_nth_drop_Suc)
    have "count_valid frames i icount =
            count_valid frames (i + 1) (if valid (frames ! i) then icount + 1 else icount)"
      using True by (subst count_valid.simps) simp
    also have "\<dots> = (if valid (frames ! i) then icount + 1 else icount)
                     + int (length (filter valid (drop (i + 1) frames)))"
      by (rule "1.IH" [OF True])
    also have "\<dots> = icount + int (length (filter valid (drop i frames)))"
      unfolding d by simp
    finally show ?thesis .
  next
    case False
    then show ?thesis
      by (subst count_valid.simps) simp
  qed
qed

lemma xml_images_eq:
  "xml_images ops ident frames i xml =
     xml @ concat (map (\<lambda>j. xml_image ops ident j (frames ! j))
                       (filter (\<lambda>j. valid (frames ! j)) [i ..< length frames]))"
proof (induction ops ident frames i xml rule: xml_images.induct)
  case (1 ops ident frames i xml)
  show ?case
  proof (cases "i < length frames")
    case True
    let ?xml' = "if valid (frames ! i) then xml @ xml_image ops ident i (frames ! i) else xml"
    have "xml_images ops ident frames i xml = xml_images ops ident frames (i + 1) ?xml'"
      using True by (subst xml_images.simps) (simp add: Let_def)
    also have "\<dots> = ?xml' @ concat (map (\<lambda>j. xml_image ops ident j (frames ! j))
                       (filter (\<lambda>j. valid (frames ! j)) [i + 1 ..< length frames]))"
      by (rule "1.IH" [OF True refl])
    also have "\<dots> = xml @ concat (map (\<lambda>j. xml_image ops ident j (frames ! j))
                       (filter (\<lambda>j. valid (frames ! j)) [i ..< length frames]))"
      unfolding upt_filter_step [OF True, of "\<lambda>j. valid (frames ! j)"] by simp
    finally show ?thesis .
  next
    case False
    then show ?thesis
      by (subst xml_images.simps) simp
  qed
qed

lemma data_files_eq:
  "length (m_frameFormat s) = length (m_frames s) \<Longrightarrow>
   data_files cb s i evs =
     Inr (evs @ concat (map (frame_files cb s)
                        (filter (\<lambda>j. valid (m_frames s ! j)) [i ..< length (m_frames s)])))"
proof (induction cb s i evs rule: data_files.induct)
  case (1 cb s i evs)
  note len = "1.prems"
  show ?case
  proof (cases "i < length (m_frames s)")
    case True
    note step = upt_filter_step [OF True, of "\<lambda>j. valid (m_frames s ! j)"]
    show ?thesis
    proof (cases "valid (m_frames s ! i)")
      case v: True
      from True len have fi: "i < length (m_frameFormat s)" by simp
      have "data_files cb s i evs = data_files cb s (i + 1) (evs @ frame_files cb s i)"
        using True v fi by (subst data_files.simps) simp
      also have "\<dots> = Inr ((evs @ frame_files cb s i) @ concat (map (frame_files cb s)
                        (filter (\<lambda>j. valid (m_frames s ! j)) [i + 1 ..< length (m_frames s)])))"
        by (rule "1.IH"(1) [OF True v fi len])
      also have "\<dots> = Inr (evs @ concat (map (frame_files cb s)
                        (filter (\<lambda>j. valid (m_frames s ! j)) [i ..< length (m_frames s)])))"
        unfolding step using v by simp
      finally show ?thesis .
    next
      case v: False
      have "data_files cb s i evs = data_files cb s (i + 1) evs"
        using True v by (subst data_files.simps) simp
      also have "\<dots> = Inr (evs @ concat (map (frame_files cb s)
                        (filter (\<lambda>j. valid (m_frames s ! j)) [i + 1 ..< length (m_frames s)])))"
        by (rule "1.IH"(2) [OF True v len])
      also have "\<dots> = Inr (evs @ concat (map (frame_files cb s)
                        (filter (\<lambda>j. valid (m_frames s ! j)) [i ..< length (m_frames s)])))"
        unfolding step using v by simp
      finally show ?thesis .
    qed
  next
    case False
    then show ?thesis
      by (subst data_files.simps) simp
  qed
qed

lemma add_all_fields:
  "m_frames (add_all items s) = m_frames s @ map snd items
   \<and> m_frameFormat (add_all items s) = m_frameFormat s @ map fst items
   \<and> m_outputDirPrefix_of_set (add_all items s) = m_outputDirPrefix_of_set s
   \<and> m_fileId (add_all items s) = m_fileId s"
  by (induction items arbitrary: s) (auto simp: add_def)

lemma built_set:
  "m_frames (add_all items (ImageSet_new ident dir)) = map snd items"
  "m_frameFormat (add_all items (ImageSet_new ident dir)) = map fst items"
  "m_outputDirPrefix_of_set (add_all items (ImageSet_new ident dir)) = dir"
  "m_fileId (add_all items (ImageSet_new ident dir)) = ident"
  by (simp_all add: add_all_fields ImageSet_new_def)

lemma length_valid_positions:
  "length (valid_positions frames) = length (filter valid frames)"
proof -
  have "filter valid frames = filter valid (map ((!) frames) [0 ..< length frames])"
    by (simp add: map_nth)
  also have "\<dots> = map ((!) frames) (filter (valid \<circ> (!) frames) [0 ..< length frames])"
    by (rule filter_map)
  finally have "length (filter valid frames)
                  = length (filter (valid \<circ> (!) frames) [0 ..< length frames])"
    by simp
  then show ?thesis
    by (simp add: valid_positions_def comp_def)
qed

lemma dumpToFileSystem_eq:
  assumes "length (m_frameFormat s) = length (m_frames s)"
  shows "dumpToFileSystem ops cb s =
     (if filter valid (m_frames s) = [] then Inr []
      else Inr ([FileWritten (m_outputDirPrefix_of_set s @ sXmlName (m_fileId s))
                   (descriptor_text ops (m_fileId s) (m_frames s))]
                @ notify cb
                @ concat (map (frame_files cb s) (valid_positions (m_frames s)))))"
  by (simp add: dumpToFileSystem_def count_valid_eq xml_images_eq data_files_eq [OF assms]
        descriptor_text_def valid_positions_def Let_def)

lemma callbacks_frame_files:
  "length (filter is_callback (frame_files (Some cb) s i)) = 1"
  by (simp add: frame_files_def notify_def is_callback_def split: EFormats.splits)

lemma callbacks_concat:
  "length (filter is_callback (concat (map (frame_files (Some cb) s) js))) = length js"
  by (induction js) (simp_all add: callbacks_frame_files)




lemma frame_files_shape:
  "\<exists>img. frame_files (Some cb) s i =
           img @ [SaveThumbnail (m_outputDirPrefix_of_set s @ sThumbnailName (m_fileId s) (int i))
                                THUMBNAIL_QUALITY,
                  CallbackInvoked cb]
         \<and> filter is_callback img = []"
  by (cases "getFormat (m_frameFormat s ! i)")
     (simp_all add: frame_files_def notify_def is_callback_def)

lemma dumpToFileSystem_null_callback:
  assumes "length (m_frameFormat s) = length (m_frames s)"
      and "dumpToFileSystem ops None s = Inr evs"
  shows "filter is_callback evs = []"
proof -
  have "filter is_callback (concat (map (frame_files None s) js)) = []" for js
    by (induction js)
       (simp_all add: frame_files_def notify_def is_callback_def split: EFormats.splits)
  with assms(2) show ?thesis
    unfolding dumpToFileSystem_eq [OF assms(1)]
    by (auto simp: notify_def is_callback_def split: if_splits)
qed

text \<open>
  C4. For an image set built by the constructor and \<open>add\<close> calls, and a callback \<open>cb\<close>
  passed to \<open>dumpToFileSystem\<close> (with a null pointer the guards skip every call): if no
  frame is valid, nothing happens at all, no file is written and the callback is not
  invoked; if \<open>k \<ge> 1\<close> frames are valid, the callback is invoked exactly \<open>k + 1\<close>
  times: the events are the descriptor file, one invocation, and then for each valid frame
  in order its files (the image, written for the JPEG format only, and the thumbnail)
  followed by one invocation.
\<close>

theorem dumpToFileSystem_callback_count:
  "(length (filter valid (map snd items)) = 0 \<longrightarrow>
      dumpToFileSystem ops (Some cb) (add_all items (ImageSet_new ident dir)) = Inr [])
   \<and> (1 \<le> length (filter valid (map snd items)) \<longrightarrow>
        (\<exists>evs descr.
           dumpToFileSystem ops (Some cb) (add_all items (ImageSet_new ident dir)) = Inr evs
         \<and> length (filter is_callback evs) = length (filter valid (map snd items)) + 1
         \<and> evs = FileWritten (dir @ sXmlName ident) descr # CallbackInvoked cb
                  # concat (map (frame_files (Some cb) (add_all items (ImageSet_new ident dir)))
                                (valid_positions (map snd items)))
         \<and> length (valid_positions (map snd items)) = length (filter valid (map snd items))))
   \<and> (\<exists>img. frame_files (Some cb) (add_all items (ImageSet_new ident dir)) i =
           img @ [SaveThumbnail (dir @ sThumbnailName ident (int i)) THUMBNAIL_QUALITY,
                  CallbackInvoked cb]
         \<and> filter is_callback img = [])"
proof -
  let ?s = "add_all items (ImageSet_new ident dir)"
  define frames where "frames = map snd items"
  have len: "length (m_frameFormat ?s) = length (m_frames ?s)"
    by (simp add: built_set)
  have fr: "m_frames ?s = frames"
    by (simp add: built_set frames_def)
  note eq = dumpToFileSystem_eq [OF len, of ops "Some cb", unfolded fr built_set(3,4)]
  have a: "length (filter valid frames) = 0 \<longrightarrow> dumpToFileSystem ops (Some cb) ?s = Inr []"
    by (simp add: eq)
  have b: "1 \<le> length (filter valid frames) \<longrightarrow>
        (\<exists>evs descr.
           dumpToFileSystem ops (Some cb) ?s = Inr evs
         \<and> length (filter is_callback evs) = length (filter valid frames) + 1
         \<and> evs = FileWritten (dir @ sXmlName ident) descr # CallbackInvoked cb
                  # concat (map (frame_files (Some cb) ?s) (valid_positions frames))
         \<and> length (valid_positions frames) = length (filter valid frames))"
  proof
    assume "1 \<le> length (filter valid frames)"
    then have ne: "filter valid frames \<noteq> []" by auto
    show "\<exists>evs descr.
           dumpToFileSystem ops (Some cb) ?s = Inr evs
         \<and> length (filter is_callback evs) = length (filter valid frames) + 1
         \<and> evs = FileWritten (dir @ sXmlName ident) descr # CallbackInvoked cb
                  # concat (map (frame_files (Some cb) ?s) (valid_positions frames))
         \<and> length (valid_positions frames) = length (filter valid frames)"
      using ne
      by (simp add: eq notify_def is_callback_def callbacks_concat length_valid_positions)
  qed
  have c: "\<exists>img. frame_files (Some cb) ?s i =
           img @ [SaveThumbnail (dir @ sThumbnailName ident (int i)) THUMBNAIL_QUALITY,
                  CallbackInvoked cb]
         \<and> filter is_callback img = []"
    using frame_files_shape [of cb ?s i] by (simp add: built_set)
  from a b c show ?thesis
    unfolding frames_def by blast
qed



lemma sample_valid_count: "length (filter valid (map snd sample_items)) = 2"
  by (simp add: sample_items_def sample_frame_def)

theorem dumpToFileSystem_callback_count_witness:
  "length (filter valid (map snd sample_items)) = 2
   \<and> (\<exists>evs. dumpToFileSystem sample_ops (Some OnFileSystemChanged)
               (add_all sample_items (ImageSet_new 3 ''/tmp/x/'')) = Inr evs
            \<and> length (filter is_callback evs) = 3)
   \<and> length (filter valid (map snd ([] :: (FileFormatDescriptor \<times> Frame) list))) = 0
   \<and> dumpToFileSystem sample_ops (Some OnFileSystemChanged)
        (add_all [] (ImageSet_new 3 ''/tmp/x/'')) = Inr []"
proof -
  note k = sample_valid_count
  have h: "1 \<le> length (filter valid (map snd sample_items))"
    unfolding k by simp
  have z: "length (filter valid (map snd ([] :: (FileFormatDescriptor \<times> Frame) list))) = 0"
    by simp
  from dumpToFileSystem_callback_count
         [of sample_items sample_ops OnFileSystemChanged 3 "''/tmp/x/''" 0] h
  obtain evs where
    "dumpToFileSystem sample_ops (Some OnFileSystemChanged)
       (add_all sample_items (ImageSet_new 3 ''/tmp/x/'')) = Inr evs"
    and "length (filter is_callback evs) = length (filter valid (map snd sample_items)) + 1"
    by blast
  then have a: "\<exists>evs. dumpToFileSystem sample_ops (Some OnFileSystemChanged)
               (add_all sample_items (ImageSet_new 3 ''/tmp/x/'')) = Inr evs
            \<and> length (filter is_callback evs) = 3"
    unfolding k by simp
  from dumpToFileSystem_callback_count
         [of "[]" sample_ops OnFileSystemChanged 3 "''/tmp/x/''" 0] z
  have b: "dumpToFileSystem sample_ops (Some OnFileSystemChanged)
             (add_all [] (ImageSet_new 3 ''/tmp/x/'')) = Inr []"
    by blast
  from k a z b show ?thesis by blast
qed



section \<open>Properties of the thumbnail downsampling\<close>

lemma int32_id: "- 2147483648 \<le> k \<Longrightarrow> k < 2147483648 \<Longrightarrow> int32 k = k"
  by (simp add: int32_def signed_take_bit_int_eq_self)

lemma blur_radius_mask: "THUMBNAIL_BLUR_RADIUS AND NOT 1 = 4"
  by (simp add: THUMBNAIL_BLUR_RADIUS_def)

lemma blur_norm: "THUMBNAIL_BLUR_NORM = 2621"
  by (simp add: THUMBNAIL_BLUR_NORM_def THUMBNAIL_BLUR_RADIUS_def signed_divide_int_def)

lemma uint8_range: "0 \<le> uint (p :: uchar) \<and> uint p \<le> 255"
  using uint_lt2p [of p] by simp

lemma row_sum_step: "x < 5 \<Longrightarrow> row_sum src k x = uint (src ! nat (k + int x)) + row_sum src k (Suc x)"
  by (simp add: row_sum_def upt_conv_Cons)

lemma row_sum_end: "row_sum src k 5 = 0"
  by (simp add: row_sum_def)

lemma row_sum_range: "x \<le> 5 \<Longrightarrow> 0 \<le> row_sum src k x \<and> row_sum src k x \<le> 255 * int (5 - x)"
proof (induction "5 - x" arbitrary: x)
  case 0
  then have "x = 5" by simp
  then show ?case by (simp add: row_sum_end)
next
  case (Suc n)
  then have lt: "x < 5" by simp
  from Suc have "n = 5 - Suc x" by simp
  from Suc.hyps(1) [OF this] lt
  have "0 \<le> row_sum src k (Suc x) \<and> row_sum src k (Suc x) \<le> 255 * int (5 - Suc x)"
    by simp
  with uint8_range [of "src ! nat (k + int x)"] lt show ?case
    by (simp add: row_sum_step [OF lt] Suc_diff_Suc)
qed

lemma blur_x_eq:
  assumes "0 \<le> k" and "k + 4 < int (length src)" and "int (length src) < 2147483648"
      and "0 \<le> acc" and "acc + 1275 < 2147483648"
  shows "x \<le> 5 \<Longrightarrow> 0 \<le> a \<Longrightarrow> a + 255 * int (5 - x) \<le> acc + 1275 \<Longrightarrow>
         blur_x src k (int x) a = Inr (a + row_sum src k x)"
proof (induction "5 - x" arbitrary: x a)
  case 0
  then have "x = 5" by simp
  then show ?case
    by (subst blur_x.simps) (simp add: THUMBNAIL_BLUR_RADIUS_def row_sum_end)
next
  case (Suc n)
  then have lt: "x < 5" by simp
  let ?p = "uint (src ! nat (k + int x))"
  have pr: "0 \<le> ?p" "?p \<le> 255"
    using uint8_range [of "src ! nat (k + int x)"] by simp_all
  have xi: "int x \<le> 4" using lt by simp
  have idx: "int32 (k + int x) = k + int x"
    using assms lt by (intro int32_id) simp_all
  have rd: "readPixel src (int32 (k + int x)) = Inr ?p"
    unfolding idx using assms lt by (simp add: readPixel_def)
  have x5: "int (5 - x) = 5 - int x"
    using lt by simp
  have acc': "int32 (a + ?p) = a + ?p"
    using assms Suc.prems pr x5 xi by (intro int32_id) linarith+
  from Suc have n: "n = 5 - Suc x" by simp
  have "blur_x src k (int (Suc x)) (a + ?p) = Inr (a + ?p + row_sum src k (Suc x))"
  proof (rule Suc.hyps(1) [OF n])
    show "Suc x \<le> 5" using lt by simp
    show "0 \<le> a + ?p" using Suc.prems pr by linarith
    have "int (5 - Suc x) = 4 - int x" using lt by simp
    then show "a + ?p + 255 * int (5 - Suc x) \<le> acc + 1275"
      using Suc.prems pr x5 by linarith
  qed
  then have "blur_x src k (int x + 1) (a + ?p) = Inr (a + ?p + row_sum src k (Suc x))"
    by (simp add: add.commute)
  then show ?case
    using lt
    by (subst blur_x.simps)
       (simp add: THUMBNAIL_BLUR_RADIUS_def rd acc' bindE_def row_sum_step [OF lt])
qed


lemma blur_x_row:
  assumes "0 \<le> k" and "k + 4 < int (length src)" and "int (length src) < 2147483648"
      and "0 \<le> a" and "a + 1275 < 2147483648"
  shows "blur_x src k 0 a = Inr (a + row_sum src k 0)"
  using blur_x_eq [OF assms(1-3) assms(4,5), of 0 a] assms(4) by simp

lemma win_sum_step:
  "y < 5 \<Longrightarrow> win_sum src W corner y = row_sum src (corner + int y * W) 0 + win_sum src W corner (Suc y)"
  by (simp add: win_sum_def upt_conv_Cons)

lemma win_sum_end: "win_sum src W corner 5 = 0"
  by (simp add: win_sum_def)

lemma win_sum_range:
  "y \<le> 5 \<Longrightarrow> 0 \<le> win_sum src W corner y \<and> win_sum src W corner y \<le> 1275 * int (5 - y)"
proof (induction "5 - y" arbitrary: y)
  case 0
  then have "y = 5" by simp
  then show ?case by (simp add: win_sum_end)
next
  case (Suc n)
  then have lt: "y < 5" by simp
  from Suc have "n = 5 - Suc y" by simp
  from Suc.hyps(1) [OF this] lt
  have ih: "0 \<le> win_sum src W corner (Suc y)"
           "win_sum src W corner (Suc y) \<le> 1275 * int (5 - Suc y)"
    by simp_all
  have r: "0 \<le> row_sum src (corner + int y * W) 0" "row_sum src (corner + int y * W) 0 \<le> 1275"
    using row_sum_range [of 0 src "corner + int y * W"] by simp_all
  have "int (5 - y) = int (5 - Suc y) + 1" using lt by simp
  with ih r show ?case
    unfolding win_sum_step [OF lt] by simp
qed

lemma window_sum_win_sum: "window_sum src W corner = win_sum src W corner 0"
  by (simp add: window_sum_def win_sum_def row_sum_def)

lemma blur_y_eq:
  assumes "0 \<le> corner" and "5 \<le> W" and "corner + 4 * W + 4 < int (length src)"
      and "int (length src) + W < 2147483648"
  shows "y \<le> 5 \<Longrightarrow> 0 \<le> a \<Longrightarrow> a + 1275 * int (5 - y) < 2147483648 \<Longrightarrow>
         blur_y src W (corner + int y * W) (int y) a = Inr (a + win_sum src W corner y)"
proof (induction "5 - y" arbitrary: y a)
  case 0
  then have "y = 5" by simp
  then show ?case
    by (subst blur_y.simps) (simp add: THUMBNAIL_BLUR_RADIUS_def win_sum_end)
next
  case (Suc n)
  then have lt: "y < 5" by simp
  then have yi: "int y \<le> 4" by simp
  let ?k = "corner + int y * W"
  let ?r = "row_sum src ?k 0"
  have yW: "0 \<le> int y * W" "int y * W \<le> 4 * W"
    using assms(2) yi by (simp_all add: mult_right_mono)
  have r: "0 \<le> ?r" "?r \<le> 1275"
    using row_sum_range [of 0 src ?k] by simp_all
  have y5: "int (5 - y) = int (5 - Suc y) + 1" using lt by simp
  have bx: "blur_x src ?k 0 a = Inr (a + ?r)"
  proof (rule blur_x_row)
    show "0 \<le> ?k" using assms(1) yW by linarith
    show "?k + 4 < int (length src)" using assms(3) yW by linarith
    show "int (length src) < 2147483648" using assms(2,4) by linarith
    show "0 \<le> a" by (rule Suc.prems(2))
    show "a + 1275 < 2147483648" using Suc.prems(3) y5 by linarith
  qed
  have nxt: "int32 (?k + W) = corner + int (Suc y) * W"
  proof -
    have "?k + W = corner + int (Suc y) * W" by (simp add: algebra_simps)
    moreover have "- 2147483648 \<le> ?k + W" using assms(1,2) yW by linarith
    moreover have "?k + W < 2147483648" using assms(2,3,4) yW by linarith
    ultimately show ?thesis using int32_id [of "?k + W"] by simp
  qed
  from Suc have n: "n = 5 - Suc y" by simp
  have "blur_y src W (corner + int (Suc y) * W) (int (Suc y)) (a + ?r)
          = Inr (a + ?r + win_sum src W corner (Suc y))"
  proof (rule Suc.hyps(1) [OF n])
    show "Suc y \<le> 5" using lt by simp
    show "0 \<le> a + ?r" using Suc.prems(2) r by linarith
    show "a + ?r + 1275 * int (5 - Suc y) < 2147483648"
      using Suc.prems(3) r y5 by linarith
  qed
  moreover have "int (Suc y) = int y + 1" by simp
  ultimately have "blur_y src W (int32 (?k + W)) (int y + 1) (a + ?r)
          = Inr (a + ?r + win_sum src W corner (Suc y))"
    unfolding nxt by (simp only:)
  then show ?case
    using lt
    by (subst blur_y.simps)
       (simp add: THUMBNAIL_BLUR_RADIUS_def bx bindE_def win_sum_step [OF lt])
qed

lemma blur_window:
  assumes "0 \<le> corner" and "5 \<le> W" and "corner + 4 * W + 4 < int (length src)"
      and "int (length src) + W < 2147483648"
  shows "blur_y src W corner 0 0 = Inr (window_sum src W corner)"
  using blur_y_eq [OF assms, of 0 0] by (simp add: window_sum_win_sum)

lemma window_sum_range: "0 \<le> window_sum src W corner \<and> window_sum src W corner \<le> 6375"
  using win_sum_range [of 0 src W corner] by (simp add: window_sum_win_sum)

lemma div_65536_bound: "(x::int) < (W - 4) * 65536 \<Longrightarrow> x div 65536 \<le> W - 5"
proof -
  assume a: "x < (W - 4) * 65536"
  have "x div 65536 * 65536 + x mod 65536 = x" by simp
  moreover have "0 \<le> x mod 65536" by simp
  ultimately have "x div 65536 * 65536 \<le> x" by linarith
  with a have "x div 65536 * 65536 < (W - 4) * 65536" by linarith
  then have "x div 65536 < W - 4" by simp
  then show ?thesis by simp
qed

lemma shift_bound:
  assumes "0 \<le> a" and "int n * a \<le> (W - 4) * 65536" and "5 \<le> W" and "j < n"
  shows "0 \<le> drop_bit 16 (int j * a) \<and> drop_bit 16 (int j * a) \<le> W - 5
         \<and> 0 \<le> int j * a \<and> int j * a + a \<le> (W - 4) * 65536"
proof -
  have nn: "0 \<le> int j * a" using assms(1) by simp
  have "int j + 1 \<le> int n" using assms(4) by simp
  then have "(int j + 1) * a \<le> int n * a"
    using assms(1) by (rule mult_right_mono)
  then have le: "int j * a + a \<le> (W - 4) * 65536"
    using assms(2) by (simp add: algebra_simps)
  have lt: "int j * a < (W - 4) * 65536"
  proof (cases "a = 0")
    case True
    then show ?thesis using assms(3) by simp
  next
    case False
    with assms(1) have "0 < a" by simp
    with le show ?thesis by linarith
  qed
  have "drop_bit 16 (int j * a) = int j * a div 65536"
    by (simp add: drop_bit_eq_div)
  moreover have "0 \<le> int j * a div 65536" using nn by simp
  moreover have "int j * a div 65536 \<le> W - 5" using lt by (rule div_65536_bound)
  ultimately show ?thesis using nn le by simp
qed


lemma columns_eq:
  fixes dw :: nat
  assumes W: "5 \<le> W" "W \<le> 32771"
      and ax: "0 \<le> ax" "int dw * ax \<le> (W - 4) * 65536"
      and row: "0 \<le> rowindex" "rowindex + 5 * W \<le> int (length src)"
      and src: "int (length src) + W < 2147483648"
      and L: "int L < 2147483648"
  shows "j \<le> dw \<Longrightarrow> length dest = L \<Longrightarrow> n + (dw - j) \<le> L \<Longrightarrow>
         columns src W (int dw) ax rowindex (int j) (int j * ax) (int n) dest =
           Inr (take n dest
                @ map (\<lambda>j'. window_pixel src W (rowindex + drop_bit 16 (int j' * ax))) [j ..< dw]
                @ drop (n + (dw - j)) dest,
                int (n + (dw - j)))"
proof (induction "dw - j" arbitrary: j n dest)
  case 0
  then have "j = dw" by simp
  then show ?case
    by (subst columns.simps) simp
next
  case (Suc m)
  then have lt: "j < dw" by simp
  let ?pix = "\<lambda>j'. window_pixel src W (rowindex + drop_bit 16 (int j' * ax))"
  let ?c = "drop_bit 16 (int j * ax)"
  let ?corner = "rowindex + ?c"
  let ?s = "window_sum src W ?corner"
  let ?dest' = "dest[n := ?pix j]"
  note sb = shift_bound [OF ax(1) ax(2) W(1) lt]
  have c: "0 \<le> ?c" "?c \<le> W - 5" using sb by simp_all
  have t: "0 \<le> int j * ax" "int j * ax + ax \<le> (W - 4) * 65536" using sb by simp_all
  have cr: "int32 ?corner = ?corner"
    using row src c W by (intro int32_id) linarith+
  have bl: "blur_y src W ?corner 0 0 = Inr ?s"
  proof (rule blur_window)
    show "0 \<le> ?corner" using row(1) c(1) by linarith
    show "5 \<le> W" by (rule W(1))
    show "?corner + 4 * W + 4 < int (length src)" using row(2) c(2) by linarith
    show "int (length src) + W < 2147483648" by (rule src)
  qed
  have ws: "0 \<le> ?s" "?s \<le> 6375"
    using window_sum_range [of src W ?corner] by simp_all
  have nm: "int32 (?s * THUMBNAIL_BLUR_NORM) = ?s * 2621"
    unfolding blur_norm using ws by (intro int32_id) linarith+
  have nL: "n < length dest" using Suc.prems lt by simp
  have wr: "writePixel dest (int n) (drop_bit 16 (?s * 2621)) = Inr ?dest'"
    using nL by (simp add: writePixel_def window_pixel_def)
  have tx': "int32 (int j * ax + ax) = int (Suc j) * ax"
  proof -
    have "int j * ax + ax = int (Suc j) * ax" by (simp add: algebra_simps)
    moreover have "(W - 4) * 65536 < 2147483648" using W(2) by simp
    then have "int32 (int j * ax + ax) = int j * ax + ax"
      using t ax(1) by (intro int32_id) linarith+
    ultimately show ?thesis by simp
  qed
  have dn: "int32 (int n + 1) = int (Suc n)"
  proof -
    have "int32 (int n + 1) = int n + 1"
      using nL Suc.prems(2) L by (intro int32_id) linarith+
    then show ?thesis by simp
  qed
  from Suc have m: "m = dw - Suc j" by simp
  have ih: "columns src W (int dw) ax rowindex (int (Suc j)) (int (Suc j) * ax) (int (Suc n)) ?dest'
          = Inr (take (Suc n) ?dest' @ map ?pix [Suc j ..< dw] @ drop (Suc n + (dw - Suc j)) ?dest',
                 int (Suc n + (dw - Suc j)))"
  proof (rule Suc.hyps(1) [OF m])
    show "Suc j \<le> dw" using lt by simp
    show "length ?dest' = L" using Suc.prems(2) by simp
    show "Suc n + (dw - Suc j) \<le> L" using Suc.prems(3) lt by simp
  qed
  have e1: "take (Suc n) ?dest' = take n dest @ [?pix j]"
    using nL by (simp add: take_Suc_conv_app_nth)
  have e2: "drop (n + (dw - j)) ?dest' = drop (n + (dw - j)) dest"
    using lt by simp
  have e3: "[j ..< dw] = j # [Suc j ..< dw]"
    using lt by (simp add: upt_conv_Cons)
  have e4: "Suc n + (dw - Suc j) = n + (dw - j)"
    using lt by simp
  have e5: "int (Suc j) = int j + 1" by simp
  have rec: "columns src W (int dw) ax rowindex (int j + 1) (int32 (int j * ax + ax))
               (int32 (int n + 1)) ?dest'
          = Inr (take n dest @ map ?pix [j ..< dw] @ drop (n + (dw - j)) dest,
                 int (n + (dw - j)))"
    using ih unfolding tx' dn e1 e2 e3 e4 e5 by simp
  show ?case
    apply (subst columns.simps)
    apply (simp only: cr bl nm wr rec bindE_def sum.case)
    using lt apply simp
    done
qed


lemma extent_product:
  assumes "5 \<le> W" "W \<le> 32771" "5 \<le> H" "H \<le> (32771::int)"
  shows "W * H \<le> 1073938441"
proof -
  have "W * H \<le> 32771 * 32771"
    using assms by (intro mult_mono) simp_all
  then show ?thesis by simp
qed

lemma rows_eq:
  fixes dw dh :: nat
  assumes W: "5 \<le> W" "W \<le> 32771" and H: "5 \<le> H" "H \<le> 32771"
      and ax: "0 \<le> ax" "int dw * ax \<le> (W - 4) * 65536"
      and ay: "0 \<le> ay" "int dh * ay \<le> (H - 4) * 65536"
      and src: "int (length src) = W * H"
      and L: "L = dh * dw" "int L < 2147483648"
  shows "i \<le> dh \<Longrightarrow> length dest = L \<Longrightarrow>
         rows src W (int dw) (int dh) ax ay (int i) (int i * ay) (int (i * dw)) dest =
           Inr (take (i * dw) dest
                @ concat (map (\<lambda>i'. map (\<lambda>j'. box_pixel src W ax ay i' j') [0 ..< dw])
                              [i ..< dh]))"
proof (induction "dh - i" arbitrary: i dest)
  case 0
  then have "i = dh" by simp
  with "0.prems" L(1) show ?case
    by (subst rows.simps) simp
next
  case (Suc m)
  then have lt: "i < dh" by simp
  let ?r = "drop_bit 16 (int i * ay)"
  let ?row = "map (\<lambda>j'. box_pixel src W ax ay i j') [0 ..< dw]"
  let ?dest' = "take (i * dw) dest @ ?row @ drop (i * dw + dw) dest"
  note sb = shift_bound [OF ay(1) ay(2) H(1) lt]
  have r: "0 \<le> ?r" "?r \<le> H - 5" using sb by simp_all
  have t: "0 \<le> int i * ay" "int i * ay + ay \<le> (H - 4) * 65536" using sb by simp_all
  note WH = extent_product [OF W H]
  have rW: "0 \<le> ?r * W" using r(1) W(1) by simp
  have "(?r + 5) * W \<le> H * W"
    using r(2) W(1) by (intro mult_right_mono) simp_all
  then have rW5: "?r * W + 5 * W \<le> W * H"
    by (simp add: algebra_simps)
  have ri: "int32 (?r * W) = ?r * W"
    using rW rW5 WH W by (intro int32_id) linarith+
  have fit: "i * dw + dw \<le> L"
  proof -
    have "Suc i * dw \<le> dh * dw" using lt by (intro mult_le_mono1) simp
    then show ?thesis using L(1) by simp
  qed
  have cols: "columns src W (int dw) ax (?r * W) (int 0) (int 0 * ax) (int (i * dw)) dest
                = Inr (take (i * dw) dest
                       @ map (\<lambda>j'. window_pixel src W (?r * W + drop_bit 16 (int j' * ax)))
                             [0 ..< dw]
                       @ drop (i * dw + (dw - 0)) dest,
                       int (i * dw + (dw - 0)))"
  proof (rule columns_eq [OF W ax _ _ _ L(2)])
    show "0 \<le> ?r * W" by (rule rW)
    show "?r * W + 5 * W \<le> int (length src)" using rW5 src by simp
    show "int (length src) + W < 2147483648" using src WH W by linarith
    show "0 \<le> dw" by simp
    show "length dest = L" by (rule Suc.prems(2))
    show "i * dw + (dw - 0) \<le> L" using fit by simp
  qed
  then have cols': "columns src W (int dw) ax (?r * W) 0 0 (int (i * dw)) dest
                = Inr (?dest', int (i * dw + dw))"
    by (simp add: box_pixel_def)
  have ty': "int32 (int i * ay + ay) = int (Suc i) * ay"
  proof -
    have "int i * ay + ay = int (Suc i) * ay" by (simp add: algebra_simps)
    moreover have "(H - 4) * 65536 < 2147483648" using H(2) by simp
    then have "int32 (int i * ay + ay) = int i * ay + ay"
      using t ay(1) by (intro int32_id) linarith+
    ultimately show ?thesis by simp
  qed
  from Suc have m: "m = dh - Suc i" by simp
  have len': "length ?dest' = L"
    using Suc.prems(2) fit by simp
  have ih: "rows src W (int dw) (int dh) ax ay (int (Suc i)) (int (Suc i) * ay)
              (int (Suc i * dw)) ?dest'
          = Inr (take (Suc i * dw) ?dest'
                 @ concat (map (\<lambda>i'. map (\<lambda>j'. box_pixel src W ax ay i' j') [0 ..< dw])
                               [Suc i ..< dh]))"
  proof (rule Suc.hyps(1) [OF m])
    show "Suc i \<le> dh" using lt by simp
    show "length ?dest' = L" by (rule len')
  qed
  have e1: "take (Suc i * dw) ?dest' = take (i * dw) dest @ ?row"
    using Suc.prems(2) fit by simp
  have e3: "[i ..< dh] = i # [Suc i ..< dh]"
    using lt by (simp add: upt_conv_Cons)
  have e5: "int (Suc i) = int i + 1" by simp
  have e6: "int (Suc i * dw) = int (i * dw + dw)" by simp
  have rec: "rows src W (int dw) (int dh) ax ay (int i + 1) (int32 (int i * ay + ay))
               (int (i * dw + dw)) ?dest'
          = Inr (take (i * dw) dest
                 @ concat (map (\<lambda>i'. map (\<lambda>j'. box_pixel src W ax ay i' j') [0 ..< dw])
                               [i ..< dh]))"
    using ih unfolding ty' e1 e3 e6 e5 by simp
  show ?case
    apply (subst rows.simps)
    apply (simp only: ri cols' rec bindE_def sum.case prod.case)
    using lt apply simp
    done
qed


lemma step_x_props:
  assumes "5 \<le> W" "W \<le> 32771" "1 \<le> d"
  shows "int32 (int32 (int32 (W - (THUMBNAIL_BLUR_RADIUS AND NOT 1)) * 2 ^ 16) sdiv d)
           = step_x W d"
    and "0 \<le> step_x W d"
    and "d * step_x W d \<le> (W - 4) * 65536"
proof -
  let ?A = "(W - 4) * 65536"
  have A: "0 \<le> ?A" "?A < 2147483648" using assms(1,2) by simp_all
  have q: "0 \<le> ?A div d" "?A div d \<le> ?A"
  proof -
    show "0 \<le> ?A div d" using A(1) assms(3) by (simp add: pos_imp_zdiv_nonneg_iff)
    have "?A div d \<le> ?A div 1" using A(1) assms(3) by (intro zdiv_mono2) simp_all
    then show "?A div d \<le> ?A" by simp
  qed
  have s: "?A sdiv d = ?A div d"
    using A(1) assms(3) by (simp add: signed_divide_int_def sgn_if)
  have 1: "int32 (W - 4) = W - 4" using assms(1,2) by (intro int32_id) simp_all
  have 2: "int32 ?A = ?A" using A by (intro int32_id) simp_all
  have 3: "int32 (?A div d) = ?A div d" using q A by (intro int32_id) linarith+
  show "int32 (int32 (int32 (W - (THUMBNAIL_BLUR_RADIUS AND NOT 1)) * 2 ^ 16) sdiv d)
           = step_x W d"
    unfolding blur_radius_mask step_x_def using 1 2 3 s by simp
  show "0 \<le> step_x W d" using q by (simp add: step_x_def)
  have "d * (?A div d) + ?A mod d = ?A" by simp
  moreover have "0 \<le> ?A mod d" using assms(3) by simp
  ultimately show "d * step_x W d \<le> ?A" unfolding step_x_def by linarith
qed

lemma DownsampleChannel_eq:
  assumes W: "5 \<le> sw" "sw \<le> 32771" and H: "5 \<le> sh" "sh \<le> 32771"
      and d: "1 \<le> dw" "1 \<le> dh" "dw * dh < 2147483648"
      and src: "int (length src) = sw * sh"
      and dest: "int (length dest) = dw * dh"
  shows "DownsampleChannel dest dw dh src sw sh = Inr (box_filter src sw sh dw dh)"
proof -
  let ?ax = "step_x sw dw" and ?ay = "step_x sh dh"
  note x = step_x_props [OF W d(1)]
  note y = step_x_props [OF H d(2)]
  have dwn: "int (nat dw) = dw" and dhn: "int (nat dh) = dh" using d by simp_all
  have len: "length dest = nat dh * nat dw"
  proof -
    have "int (length dest) = int (nat dh * nat dw)"
      using dest dwn dhn by (simp add: mult.commute)
    then show ?thesis by (simp only: of_nat_eq_iff)
  qed
  have L: "int (nat dh * nat dw) < 2147483648"
    using d(3) dwn dhn by (simp add: mult.commute)
  have "rows src sw (int (nat dw)) (int (nat dh)) ?ax ?ay (int 0) (int 0 * ?ay)
          (int (0 * nat dw)) dest
        = Inr (take (0 * nat dw) dest
               @ concat (map (\<lambda>i'. map (\<lambda>j'. box_pixel src sw ?ax ?ay i' j') [0 ..< nat dw])
                             [0 ..< nat dh]))"
  proof (rule rows_eq [OF W H _ _ _ _ src refl L])
    show "0 \<le> ?ax" by (rule x(2))
    show "int (nat dw) * ?ax \<le> (sw - 4) * 65536" unfolding dwn by (rule x(3))
    show "0 \<le> ?ay" by (rule y(2))
    show "int (nat dh) * ?ay \<le> (sh - 4) * 65536" unfolding dhn by (rule y(3))
    show "0 \<le> nat dh" by simp
    show "length dest = nat dh * nat dw" by (rule len)
  qed
  then have "rows src sw dw dh ?ax ?ay 0 0 0 dest = Inr (box_filter src sw sh dw dh)"
    unfolding dwn dhn by (simp add: box_filter_def)
  then show ?thesis
    unfolding DownsampleChannel_def Let_def x(1) y(1) using d(1,2) by simp
qed

lemma length_box_filter:
  "0 \<le> dw \<Longrightarrow> 0 \<le> dh \<Longrightarrow> length (box_filter src sw sh dw dh) = nat (dw * dh)"
  by (simp add: box_filter_def length_concat comp_def sum_list_triv nat_mult_distrib
        mult.commute)


lemma window_sum_uniform:
  assumes "0 \<le> corner" and "0 \<le> W" and "corner + 4 * W + 4 < int n"
  shows "window_sum (replicate n V) W corner = 25 * uint V"
proof -
  have px: "replicate n V ! nat (corner + int y * W + int x) = V" if "y < 5" and "x < 5" for y x
  proof -
    have "int y \<le> 4" and "int x \<le> 4" using that by simp_all
    then have "0 \<le> int y * W" and "int y * W \<le> 4 * W"
      using assms(2) by (simp_all add: mult_right_mono)
    then have "nat (corner + int y * W + int x) < n"
      using assms \<open>int x \<le> 4\<close> by linarith
    then show ?thesis by simp
  qed
  have inner: "map (\<lambda>x. uint (replicate n V ! nat (corner + int y * W + int x))) [0 ..< 5]
                 = map (\<lambda>x. uint V) [0 ..< 5]" if "y < 5" for y
    using that by (intro map_cong refl) (simp add: px)
  have outer: "map (\<lambda>y. sum_list (map (\<lambda>x. uint (replicate n V ! nat (corner + int y * W + int x)))
                                   [0 ..< 5])) [0 ..< 5]
          = map (\<lambda>y. 5 * uint V) [0 ..< 5]"
    by (intro map_cong refl) (simp add: inner sum_list_triv)
  show ?thesis
    unfolding window_sum_def outer by (simp add: sum_list_triv)
qed

lemma concat_const_rows:
  "concat (map (\<lambda>i. replicate m c) [0 ..< k]) = replicate (k * m) c"
proof (induction k)
  case 0
  show ?case by simp
next
  case (Suc k)
  have "concat (map (\<lambda>i. replicate m c) [0 ..< Suc k])
          = concat (map (\<lambda>i. replicate m c) [0 ..< k]) @ replicate m c"
    by simp
  also have "\<dots> = replicate (k * m) c @ replicate m c"
    unfolding Suc.IH ..
  also have "\<dots> = replicate (k * m + m) c"
    by (rule replicate_add [symmetric])
  also have "k * m + m = Suc k * m" by simp
  finally show ?case .
qed

lemma box_filter_uniform:
  assumes W: "5 \<le> sw" "sw \<le> 32771" and H: "5 \<le> sh" "sh \<le> 32771"
      and d: "1 \<le> dw" "1 \<le> dh"
  shows "box_filter (replicate (nat (sw * sh)) V) sw sh dw dh
           = replicate (nat (dw * dh)) (word_of_int (drop_bit 16 (25 * uint V * 2621)))"
proof -
  let ?src = "replicate (nat (sw * sh)) V"
  let ?ax = "step_x sw dw" and ?ay = "step_x sh dh"
  let ?c = "word_of_int (drop_bit 16 (25 * uint V * 2621)) :: uchar"
  note x = step_x_props [OF W d(1)]
  note y = step_x_props [OF H d(2)]
  have dwn: "int (nat dw) = dw" and dhn: "int (nat dh) = dh" using d by simp_all
  have px: "box_pixel ?src sw ?ax ?ay i j = ?c" if "i < nat dh" and "j < nat dw" for i j
  proof -
    let ?r = "drop_bit 16 (int i * ?ay)" and ?k = "drop_bit 16 (int j * ?ax)"
    have "int (nat dh) * ?ay \<le> (sh - 4) * 65536" unfolding dhn by (rule y(3))
    from shift_bound [OF y(2) this H(1) that(1)]
    have r: "0 \<le> ?r" "?r \<le> sh - 5" by simp_all
    have "int (nat dw) * ?ax \<le> (sw - 4) * 65536" unfolding dwn by (rule x(3))
    from shift_bound [OF x(2) this W(1) that(2)]
    have k: "0 \<le> ?k" "?k \<le> sw - 5" by simp_all
    have rW: "0 \<le> ?r * sw" using r(1) W(1) by simp
    have "(?r + 5) * sw \<le> sh * sw"
      using r(2) W(1) by (intro mult_right_mono) simp_all
    then have rW5: "?r * sw + 5 * sw \<le> sw * sh"
      by (simp add: algebra_simps)
    have pos: "0 \<le> sw * sh" using W(1) H(1) by simp
    have "window_sum ?src sw (?r * sw + ?k) = 25 * uint V"
    proof (rule window_sum_uniform)
      show "0 \<le> ?r * sw + ?k" using rW k(1) by linarith
      show "0 \<le> sw" using W(1) by simp
      show "?r * sw + ?k + 4 * sw + 4 < int (nat (sw * sh))"
        using rW5 k(2) pos by simp
    qed
    then show ?thesis
      by (simp add: box_pixel_def window_pixel_def)
  qed
  have row: "map (\<lambda>j. box_pixel ?src sw ?ax ?ay i j) [0 ..< nat dw] = replicate (nat dw) ?c"
    if "i < nat dh" for i
  proof -
    have "map (\<lambda>j. box_pixel ?src sw ?ax ?ay i j) [0 ..< nat dw] = map (\<lambda>j. ?c) [0 ..< nat dw]"
      using that by (intro map_cong refl) (simp add: px)
    then show ?thesis by (simp add: map_replicate_const)
  qed
  have all: "map (\<lambda>i. map (\<lambda>j. box_pixel ?src sw ?ax ?ay i j) [0 ..< nat dw]) [0 ..< nat dh]
          = map (\<lambda>i. replicate (nat dw) ?c) [0 ..< nat dh]"
    by (intro map_cong refl) (simp add: row)
  have "box_filter ?src sw sh dw dh = replicate (nat dh * nat dw) ?c"
    unfolding box_filter_def all by (rule concat_const_rows)
  moreover have "nat dh * nat dw = nat (dw * dh)"
    using d by (simp add: nat_mult_distrib mult.commute)
  ultimately show ?thesis by simp
qed

lemma norm_shift:
  assumes "0 \<le> v" and "v \<le> (255::int)"
  shows "drop_bit 16 (25 * v * 2621) = (if v = 0 then 0 else v - 1)"
proof (cases "v = 0")
  case True
  then show ?thesis by simp
next
  case False
  with assms have v: "1 \<le> v" by simp
  have "25 * v * 2621 = (65536 - 11 * v) + (v - 1) * 65536" by simp
  then have "(25 * v * 2621) div 65536 = ((65536 - 11 * v) + (v - 1) * 65536) div 65536"
    by simp
  also have "\<dots> = (v - 1) + (65536 - 11 * v) div 65536"
    by (rule div_mult_self1) simp
  also have "(65536 - 11 * v) div 65536 = 0"
    using v assms(2) by (intro div_pos_pos_trivial) simp_all
  finally show ?thesis using False by (simp add: drop_bit_eq_div)
qed

lemma uint8_of_int: "0 \<le> k \<Longrightarrow> k < 256 \<Longrightarrow> uint (word_of_int k :: uchar) = k"
  by (rule word_of_int_inverse [OF refl]) simp_all

lemma uniform_pixel_close:
  "\<bar>uint (word_of_int (drop_bit 16 (25 * uint V * 2621)) :: uchar) - uint (V :: uchar)\<bar> \<le> 1"
proof -
  have v: "0 \<le> uint V" "uint V \<le> 255" using uint8_range [of V] by simp_all
  let ?q = "drop_bit 16 (25 * uint V * 2621)"
  have q: "?q = (if uint V = 0 then 0 else uint V - 1)" by (rule norm_shift [OF v])
  show ?thesis
  proof (cases "uint V = 0")
    case True
    with q show ?thesis by simp
  next
    case False
    with q have q1: "?q = uint V - 1" by simp
    from False v have "1 \<le> uint V" by linarith
    with v have "0 \<le> uint V - 1" "uint V - 1 < 256" by linarith+
    then have "uint (word_of_int (uint V - 1) :: uchar) = uint V - 1"
      by (rule uint8_of_int)
    then show ?thesis unfolding q1 by (simp only:)
  qed
qed


text \<open>
  C7, amended. The source position is a 16.16 fixed-point number held in an \<open>int\<close>, so the
  step \<open>(( srcWidth - 4 ) << 16 ) / dstWidth\<close> is right only while \<open>srcWidth - 4\<close> is
  below \<open>2^15\<close>. For source extents from 5 to 32771 and a destination of fewer than
  \<open>2^31\<close> pixels (at least 1 x 1), on a source plane of uniform value \<open>V\<close> every output
  pixel is \<open>(25 * V * THUMBNAIL_BLUR_NORM) >> 16\<close>, which differs from \<open>V\<close> by at most 1.
  The 64 x 64 plane of the specification is within these bounds.
\<close>

theorem DownsampleChannel_uniform_plane:
  assumes "5 \<le> srcWidth" and "srcWidth \<le> 32771"
      and "5 \<le> srcHeight" and "srcHeight \<le> 32771"
      and "1 \<le> dstWidth" and "1 \<le> dstHeight" and "dstWidth * dstHeight < 2147483648"
      and "int (length dest) = dstWidth * dstHeight"
  shows "DownsampleChannel dest dstWidth dstHeight
           (replicate (nat (srcWidth * srcHeight)) V) srcWidth srcHeight
         = Inr (replicate (nat (dstWidth * dstHeight))
                  (word_of_int (drop_bit 16 (25 * uint V * THUMBNAIL_BLUR_NORM))))
       \<and> \<bar>uint (word_of_int (drop_bit 16 (25 * uint V * THUMBNAIL_BLUR_NORM)) :: uchar)
            - uint V\<bar> \<le> 1"
proof -
  have "0 \<le> srcWidth * srcHeight" using assms(1,3) by simp
  then have src: "int (length (replicate (nat (srcWidth * srcHeight)) V)) = srcWidth * srcHeight"
    by simp
  show ?thesis
    unfolding blur_norm
    using DownsampleChannel_eq [OF assms(1-7) src assms(8)]
          box_filter_uniform [OF assms(1-6), of V] uniform_pixel_close [of V]
    by simp
qed

theorem DownsampleChannel_uniform_plane_witness:
  "(5::int) \<le> 64 \<and> (64::int) \<le> 32771 \<and> (1::int) \<le> 384 \<and> (1::int) \<le> 288
   \<and> (384::int) * 288 < 2147483648
   \<and> int (length (replicate 110592 (0 :: uchar))) = 384 * 288
   \<and> DownsampleChannel (replicate 110592 0) 384 288 (replicate 4096 200) 64 64
       = Inr (replicate 110592 199)"
  using DownsampleChannel_uniform_plane [of 64 64 384 288 "replicate 110592 0" 200]
  by (simp add: blur_norm drop_bit_eq_div)

text \<open>
  The claim without the upper bound fails: with \<open>srcWidth = 32772\<close> the shift
  \<open>32768 << 16\<close> leaves the range of \<open>int\<close>, the step becomes negative, and the second
  output pixel reads the source at index \<open>-16384\<close>.
\<close>

theorem DownsampleChannel_uniform_counterexample:
  "(1::int) \<le> 2 \<and> (1::int) \<le> 1 \<and> (5::int) \<le> 32772 \<and> (5::int) \<le> 5
   \<and> length (replicate 163860 (200 :: uchar)) = nat (32772 * 5)
   \<and> DownsampleChannel (replicate 2 0) 2 1 (replicate 163860 200) 32772 5 = Inl OutOfBounds
   \<and> DownsampleChannel (replicate 2 0) 2 1 (replicate 163860 200) 32772 5
       \<noteq> Inr (replicate 2 (word_of_int (drop_bit 16 (25 * uint (200 :: uchar)
                                                         * THUMBNAIL_BLUR_NORM))))"
  by (simp add: DownsampleChannel_def rows.simps columns.simps blur_y.simps blur_x.simps
        readPixel_def writePixel_def bindE_def int32_def THUMBNAIL_BLUR_RADIUS_def
        THUMBNAIL_BLUR_NORM_def signed_divide_int_def Let_def drop_bit_eq_div)

text \<open>
  C10, amended. For source extents from 5 to 32771, a destination of at least 1 x 1 and
  fewer than \<open>2^31\<close> pixels, a source plane of \<open>srcWidth * srcHeight\<close> bytes and a
  destination plane of \<open>dstWidth * dstHeight\<close> bytes, \<open>DownsampleChannel\<close> returns a
  destination plane: no read of the source and no write of the destination falls outside
  its plane (an access outside is the only way the model yields \<open>OutOfBounds\<close>, and an
  error ends the run).
\<close>

theorem DownsampleChannel_accesses_in_bounds:
  assumes "5 \<le> srcWidth" and "srcWidth \<le> 32771"
      and "5 \<le> srcHeight" and "srcHeight \<le> 32771"
      and "1 \<le> dstWidth" and "1 \<le> dstHeight" and "dstWidth * dstHeight < 2147483648"
      and "int (length src) = srcWidth * srcHeight"
      and "int (length dest) = dstWidth * dstHeight"
  shows "DownsampleChannel dest dstWidth dstHeight src srcWidth srcHeight \<noteq> Inl OutOfBounds
       \<and> (\<exists>out. DownsampleChannel dest dstWidth dstHeight src srcWidth srcHeight = Inr out
                \<and> length out = length dest)"
proof -
  have "length (box_filter src srcWidth srcHeight dstWidth dstHeight)
          = nat (dstWidth * dstHeight)"
    using assms(5,6) by (intro length_box_filter) simp_all
  also have "\<dots> = length dest"
    using assms(9) by simp
  finally show ?thesis
    using DownsampleChannel_eq [OF assms] by simp
qed

theorem DownsampleChannel_accesses_in_bounds_witness:
  "(5::int) \<le> 64 \<and> (64::int) \<le> 32771 \<and> (1::int) \<le> 3 \<and> (1::int) \<le> 2
   \<and> (3::int) * 2 < 2147483648
   \<and> int (length (replicate 4096 (9 :: uchar))) = 64 * 64
   \<and> int (length (replicate 6 (0 :: uchar))) = 3 * 2
   \<and> DownsampleChannel (replicate 6 0) 3 2 (replicate 4096 9) 64 64 \<noteq> Inl OutOfBounds
   \<and> (\<exists>out. DownsampleChannel (replicate 6 0) 3 2 (replicate 4096 9) 64 64 = Inr out
            \<and> length out = length (replicate 6 (0 :: uchar)))"
  using DownsampleChannel_accesses_in_bounds
          [of 64 64 3 2 "replicate 4096 9" "replicate 6 0"]
  by simp

text \<open>
  Without the upper bound on the source extents an access leaves the plane: with
  \<open>srcHeight = 32772\<close> the vertical step wraps to a negative number and the second output
  row starts reading at a negative index.
\<close>

theorem DownsampleChannel_bounds_counterexample:
  "(1::int) \<le> 1 \<and> (1::int) \<le> 2 \<and> (5::int) \<le> 5 \<and> (5::int) \<le> 32772
   \<and> length (replicate 163860 (17 :: uchar)) = nat (5 * 32772)
   \<and> length (replicate 2 (0 :: uchar)) = nat (1 * 2)
   \<and> DownsampleChannel (replicate 2 0) 1 2 (replicate 163860 17) 5 32772 = Inl OutOfBounds"
  by (simp add: DownsampleChannel_def rows.simps columns.simps blur_y.simps blur_x.simps
        readPixel_def writePixel_def bindE_def int32_def THUMBNAIL_BLUR_RADIUS_def
        THUMBNAIL_BLUR_NORM_def signed_divide_int_def Let_def drop_bit_eq_div)

end
